theory Spec2Isabelle
  imports Complex_Main "HOL-Library.Product_Lexorder" "HOL-Library.Word" "HOL-Library.Char_ord"
    "HOL-Library.List_Lexorder" "HOL-Library.Multiset" "HOL-Library.Signed_Division"
begin

unbundle bit_operations_syntax

section \<open>Coordinates, faces and display atoms\<close>

text \<open>
  A \<open>ByteCoord\<close> is the pair (line, column) of \<open>coord.hh\<close>, compared
  lexicographically; the order on pairs is the lexicographic one of the library.
  \<open>LineCount\<close> and \<open>ByteCount\<close> wrap an \<open>int\<close>.
\<close>

type_synonym ByteCoord = "int \<times> int"

abbreviation line :: "ByteCoord \<Rightarrow> int" where "line \<equiv> fst"
abbreviation column :: "ByteCoord \<Rightarrow> int" where "column \<equiv> snd"

type_synonym BufferRange = "ByteCoord \<times> ByteCoord"

definition INT_MAX :: int where "INT_MAX = 2147483647"
definition INT_MIN :: int where "INT_MIN = - 2147483648"

datatype Color = Default | Black | Red | Green | Yellow | Blue | Magenta | Cyan | White

text \<open>The attributes of a face are a bit set; \<open>Attribute::Normal\<close> is 0.\<close>

record Face =
  fg :: Color
  bg :: Color
  attributes :: "32 word"

definition Normal :: "32 word" where "Normal = 0"

definition default_face :: Face where
  "default_face = \<lparr>fg = Default, bg = Default, attributes = Normal\<rparr>"

datatype AtomType = BufferRange | ReplacedBufferRange | Text

record DisplayAtom =
  m_type :: AtomType
  m_begin :: ByteCoord
  m_end :: ByteCoord
  m_text :: string
  face :: Face

definition has_buffer_range :: "DisplayAtom \<Rightarrow> bool" where
  "has_buffer_range a = (m_type a = BufferRange \<or> m_type a = ReplacedBufferRange)"

text \<open>\<open>DisplayAtom(const Buffer&, begin, end)\<close> and \<open>DisplayAtom(String, Face)\<close>.\<close>

definition buffer_atom :: "ByteCoord \<Rightarrow> ByteCoord \<Rightarrow> DisplayAtom" where
  "buffer_atom b e =
     \<lparr>m_type = BufferRange, m_begin = b, m_end = e, m_text = [], face = default_face\<rparr>"

definition text_atom :: "string \<Rightarrow> Face \<Rightarrow> DisplayAtom" where
  "text_atom s f = \<lparr>m_type = Text, m_begin = (0, 0), m_end = (0, 0), m_text = s, face = f\<rparr>"

text \<open>\<open>DisplayAtom::replace\<close>: asserts a \<open>BufferRange\<close> atom.\<close>

definition replace :: "string \<Rightarrow> DisplayAtom \<Rightarrow> DisplayAtom" where
  "replace s a = a\<lparr>m_type := ReplacedBufferRange, m_text := s\<rparr>"

record DisplayLine =
  m_range :: BufferRange
  m_atoms :: "DisplayAtom list"

record DisplayBuffer =
  lines :: "DisplayLine list"
  range :: BufferRange

datatype HighlightFlags = Highlight | MoveOnly

text \<open>
  Modelled from the spec: \<open>DisplayLine::compute_range\<close> (display_buffer.cc is not part
  of the sources): the range of a line is (min-begin, max-end) over the atoms that have a
  buffer range, from the sentinel the header gives to \<open>m_range\<close>.
\<close>

definition empty_range :: BufferRange where
  "empty_range = ((INT_MAX, INT_MAX), (INT_MIN, INT_MIN))"

fun compute_range_atoms :: "BufferRange \<Rightarrow> DisplayAtom list \<Rightarrow> BufferRange" where
  "compute_range_atoms r [] = r"
| "compute_range_atoms r (a # as) =
     (if \<not> has_buffer_range a then compute_range_atoms r as
      else compute_range_atoms (min (fst r) (m_begin a), max (snd r) (m_end a)) as)"

definition line_compute_range :: "DisplayLine \<Rightarrow> DisplayLine" where
  "line_compute_range l = l\<lparr>m_range := compute_range_atoms empty_range (m_atoms l)\<rparr>"

text \<open>
  Modelled from the spec: \<open>DisplayLine::insert\<close> is the sequence operation and
  recomputes the range of the line. Here the position is an index into the atoms.
\<close>

definition line_insert :: "nat \<Rightarrow> DisplayAtom \<Rightarrow> DisplayLine \<Rightarrow> DisplayLine" where
  "line_insert i a l =
     line_compute_range (l\<lparr>m_atoms := take i (m_atoms l) @ a # drop i (m_atoms l)\<rparr>)"

text \<open>
  Modelled from the spec: \<open>DisplayLine::split\<close>: the atom at index \<open>i\<close>, a
  \<open>BufferRange\<close> atom with \<open>pos\<close> strictly inside its range, becomes two adjacent atoms
  \<open>[begin, pos)\<close> and \<open>[pos, end)\<close> sharing the face; the result points to the first
  of the two (index \<open>i\<close> again).
\<close>

definition split :: "nat \<Rightarrow> ByteCoord \<Rightarrow> DisplayAtom list \<Rightarrow> DisplayAtom list" where
  "split i pos as =
     take i as @ [(as ! i)\<lparr>m_end := pos\<rparr>, (as ! i)\<lparr>m_begin := pos\<rparr>] @ drop (Suc i) as"

section \<open>UTF-8\<close>

text \<open>
  Modelled from the spec: the code point navigation of \<open>utf8.hh\<close> and
  \<open>utf8_iterator.hh\<close>, which are not part of the sources. A continuation byte is
  \<open>10xxxxxx\<close>; a code point starts at a byte that is none and takes the continuation
  bytes that follow a byte outside ASCII. \<open>utf8_next\<close> gives the bytes after the
  first code point, \<open>utf8_codepoint\<close> the value of the first code point, read from
  its own bytes; with the policy \<open>InvalidPolicy::Pass\<close> a byte that starts no
  well-formed sequence passes as itself.
  \<open>char_length\<close> is \<open>utf8::distance\<close> over a string: the number of code points.
\<close>

type_synonym Codepoint = nat

definition is_utf8_continuation :: "char \<Rightarrow> bool" where
  "is_utf8_continuation c = ((of_char c :: nat) div 64 = 2)"

fun utf8_next :: "string \<Rightarrow> string" where
  "utf8_next [] = []"
| "utf8_next (c # cs) =
     (if (of_char c :: nat) < 128 then cs else dropWhile is_utf8_continuation cs)"

lemma length_utf8_next: "rest \<noteq> [] \<Longrightarrow> length (utf8_next rest) < length rest"
  by (cases rest) (auto simp: less_Suc_eq_le length_dropWhile_le)

definition utf8_codepoint :: "string \<Rightarrow> Codepoint" where
  "utf8_codepoint s =
     (case take (length s - length (utf8_next s)) s of
        [] \<Rightarrow> 0
      | [c] \<Rightarrow> of_char c
      | [c, c1] \<Rightarrow>
          if (of_char c :: nat) div 32 = 6 then (of_char c mod 32) * 64 + of_char c1 mod 64
          else of_char c
      | [c, c1, c2] \<Rightarrow>
          if (of_char c :: nat) div 16 = 14
          then (of_char c mod 16) * 4096 + (of_char c1 mod 64) * 64 + of_char c2 mod 64
          else of_char c
      | [c, c1, c2, c3] \<Rightarrow>
          if (of_char c :: nat) div 8 = 30
          then (of_char c mod 8) * 262144 + (of_char c1 mod 64) * 4096 + (of_char c2 mod 64) * 64
                 + of_char c3 mod 64
          else of_char c
      | c # _ \<Rightarrow> of_char c)"

definition char_length :: "string \<Rightarrow> nat" where
  "char_length s = length (filter (\<lambda>c. \<not> is_utf8_continuation c) s)"

section \<open>Buffer and context\<close>

text \<open>
  The buffer is its lines; each holds its bytes. The edit log of the buffer is outside
  the sources: \<open>changes_since t\<close> stands for
  \<open>compute_line_modifications(buffer, t)\<close>, and \<open>is_valid\<close> for
  \<open>Buffer::is_valid\<close>.
\<close>

record LineModification =
  old_line :: int
  new_line :: int
  num_removed :: int
  num_added :: int

record Buffer =
  buf_lines :: "string list"
  timestamp :: nat
  changes_since :: "nat \<Rightarrow> LineModification list"
  is_valid :: "ByteCoord \<Rightarrow> bool"

text \<open>The coordinates of the bytes of a list of lines.\<close>

definition on_bytes :: "string list \<Rightarrow> int \<times> int \<Rightarrow> bool" where
  "on_bytes ls c = (0 \<le> fst c \<and> fst c < int (length ls) \<and> 0 \<le> snd c \<and> snd c < int (length (ls ! nat (fst c))))"

definition line_count :: "Buffer \<Rightarrow> int" where
  "line_count b = int (length (buf_lines b))"

definition buf_line :: "Buffer \<Rightarrow> int \<Rightarrow> string" where
  "buf_line b l = buf_lines b ! nat l"

text \<open>A selection is (anchor, cursor).\<close>

type_synonym Selection = "ByteCoord \<times> ByteCoord"

abbreviation (input) anchor :: "Selection \<Rightarrow> ByteCoord" where "anchor \<equiv> fst"
abbreviation (input) cursor :: "Selection \<Rightarrow> ByteCoord" where "cursor \<equiv> snd"

type_synonym LineAndFlag = "int \<times> Color \<times> string"

text \<open>
  The context gives the buffer, the selections with the index of the main one, and the
  options read by the highlighters below: \<open>tabstop\<close>, the options of type
  \<open>std::vector<LineAndFlag>\<close> by name and those of type \<open>int\<close> by name. \<open>get_face\<close>
  stands for the face registry, \<open>char_next\<close> for \<open>Buffer::char_next\<close> and
  \<open>iswprint\<close> for the function of the C library, all outside the sources.
\<close>

record Context =
  buffer :: Buffer
  selections :: "Selection list"
  main_index :: nat
  tabstop :: int
  line_flags :: "string \<Rightarrow> LineAndFlag list"
  int_option :: "string \<Rightarrow> int"
  get_face :: "string \<Rightarrow> Face"
  char_next :: "ByteCoord \<Rightarrow> ByteCoord"
  iswprint :: "Codepoint \<Rightarrow> bool"

section \<open>Line numbers\<close>

datatype error =
    FormatError
  | SignedOverflow
  | AssertFailed
  | OutOfRange
  | DivisionByZero
  | runtime_error string

text \<open>The loop \<open>for (LineCount c = last_line; c > 0; c /= 10) ++digit_count\<close>.\<close>

function digit_count :: "int \<Rightarrow> nat" where
  "digit_count c = (if c > 0 then Suc (digit_count (c div 10)) else 0)"
  by pat_completeness auto
termination
  by (relation "measure nat") auto

declare digit_count.simps [simp del]

text \<open>
  \<open>snprintf(buffer, 10, "%Nd\<bar>", n)\<close>: the decimal digits of \<open>n\<close>, with a minus sign
  when negative, padded on the left with spaces to the width N, then the three bytes of
  the UTF-8 box-drawing bar (E2 94 82), the whole cut to the 9 bytes that fit the buffer.
\<close>

definition digit_char :: "nat \<Rightarrow> char" where
  "digit_char d = ''0123456789'' ! d"

function dec_digits :: "nat \<Rightarrow> string" where
  "dec_digits n = (if n < 10 then [digit_char n] else dec_digits (n div 10) @ [digit_char (n mod 10)])"
  by pat_completeness auto
termination
  by (relation "measure id") auto

declare dec_digits.simps [simp del]

definition show_int :: "int \<Rightarrow> string" where
  "show_int n = (if n < 0 then CHR ''-'' # dec_digits (nat (- n)) else dec_digits (nat n))"

definition pad_left :: "nat \<Rightarrow> string \<Rightarrow> string" where
  "pad_left w s = replicate (w - length s) CHR '' '' @ s"

definition bar :: string where
  "bar = [CHR 0xE2, CHR 0x94, CHR 0x82]"

text \<open>
  \<open>format[1] = '0' + digit_count\<close>: a width for 1 to 9; for 0 the flag \<open>0\<close> with no
  width; from 10 on the byte is no digit and the format is invalid.
\<close>

definition snprintf_line :: "nat \<Rightarrow> int \<Rightarrow> error + string" where
  "snprintf_line dc n =
     (if dc > 9 then Inl FormatError
      else Inr (take 9 (pad_left dc (show_int n) @ bar)))"

text \<open>
  One display line of \<open>show_line_numbers\<close>: the number is
  \<open>(int)line.range().first.line + 1\<close>, an \<open>int\<close> addition.
\<close>

definition number_line :: "nat \<Rightarrow> Face \<Rightarrow> DisplayLine \<Rightarrow> error + DisplayLine" where
  "number_line dc f l =
     (if line (fst (m_range l)) + 1 > INT_MAX then Inl SignedOverflow
      else case snprintf_line dc (line (fst (m_range l)) + 1) of
             Inl e \<Rightarrow> Inl e
           | Inr s \<Rightarrow> Inr (line_insert 0 (text_atom s f) l))"

text \<open>A loop over the display lines whose body may fail: it stops at the first failure.\<close>

fun each_line :: "(DisplayLine \<Rightarrow> error + DisplayLine) \<Rightarrow> DisplayLine list \<Rightarrow> error + DisplayLine list" where
  "each_line body [] = Inr []"
| "each_line body (l # ls) =
     (case body l of
        Inl e \<Rightarrow> Inl e
      | Inr l' \<Rightarrow> (case each_line body ls of Inl e \<Rightarrow> Inl e | Inr ls' \<Rightarrow> Inr (l' # ls')))"

definition show_line_numbers ::
  "Context \<Rightarrow> HighlightFlags \<Rightarrow> DisplayBuffer \<Rightarrow> error + DisplayBuffer" where
  "show_line_numbers context flags display_buffer =
     (let last_line = line_count (buffer context);
          dc = digit_count last_line;
          f = get_face context ''LineNumbers''
      in case each_line (number_line dc f) (lines display_buffer) of
           Inl e \<Rightarrow> Inl e
         | Inr ls \<Rightarrow> Inr (display_buffer\<lparr>lines := ls\<rparr>))"

section \<open>Example inputs\<close>

text \<open>
  A buffer of \<open>n\<close> lines, a context on it, and the display buffer the renderer builds
  for a list of visible lines: one atom per line, spanning the line.
\<close>

definition lines_buffer :: "nat \<Rightarrow> Buffer" where
  "lines_buffer n =
     \<lparr>buf_lines = replicate n ''a'', timestamp = 1, changes_since = (\<lambda>t. []),
      is_valid = on_bytes (replicate n ''a'')\<rparr>"

definition example_context :: "nat \<Rightarrow> Context" where
  "example_context n =
     \<lparr>buffer = lines_buffer n, selections = [], main_index = 0, tabstop = 8,
      line_flags = (\<lambda>n. []), int_option = (\<lambda>n. 1), get_face = (\<lambda>n. default_face),
      char_next = (\<lambda>c. (line c, column c + 1)), iswprint = (\<lambda>c. 32 \<le> c \<and> c < 127)\<rparr>"

definition whole_line :: "int \<Rightarrow> DisplayLine" where
  "whole_line l = \<lparr>m_range = ((l, 0), (l + 1, 0)), m_atoms = [buffer_atom (l, 0) (l + 1, 0)]\<rparr>"

definition viewport :: "int list \<Rightarrow> DisplayBuffer" where
  "viewport ls = \<lparr>lines = map whole_line ls, range = ((hd ls, 0), (last ls + 1, 0))\<rparr>"



text \<open>The width the specification gives to the line numbers: the ceiling of the decimal logarithm.\<close>

definition spec_width :: "int \<Rightarrow> nat" where
  "spec_width n = nat \<lceil>log 10 (real_of_int n)\<rceil>"


section \<open>Range application\<close>

text \<open>
  \<open>highlight_range\<close>: the loop over the atoms of a line is a loop on the index of
  the iterator; \<open>split\<close> inserts an atom, so the vector grows while it is walked.
  \<open>beg\<close> and \<open>endc\<close> are the parameters \<open>begin\<close> and \<open>end\<close> of the
  source. The callback mutates the atom it is given: here it returns the new atom.
\<close>

lemma length_split: "i < length as \<Longrightarrow> length (split i pos as) = Suc (length as)"
  by (simp add: split_def)

lemma split_append:
  "split (length pre) pos (pre @ a # post) = pre @ [a\<lparr>m_end := pos\<rparr>, a\<lparr>m_begin := pos\<rparr>] @ post"
  by (simp add: split_def)

function highlight_atoms ::
  "ByteCoord \<Rightarrow> ByteCoord \<Rightarrow> bool \<Rightarrow> (DisplayAtom \<Rightarrow> DisplayAtom) \<Rightarrow> nat \<Rightarrow> DisplayAtom list
     \<Rightarrow> DisplayAtom list" where
  "highlight_atoms beg endc skip_replaced func i atoms =
     (if i \<ge> length atoms then atoms
      else
        let is_replaced = (m_type (atoms ! i) = ReplacedBufferRange) in
        if \<not> has_buffer_range (atoms ! i) \<or> (skip_replaced \<and> is_replaced)
        then highlight_atoms beg endc skip_replaced func (Suc i) atoms
        else if endc \<le> m_begin (atoms ! i) \<or> beg \<ge> m_end (atoms ! i)
        then highlight_atoms beg endc skip_replaced func (Suc i) atoms
        else
          let i1 = (if \<not> is_replaced \<and> beg > m_begin (atoms ! i) then Suc i else i);
              atoms1 = (if \<not> is_replaced \<and> beg > m_begin (atoms ! i) then split i beg atoms else atoms)
          in if \<not> is_replaced \<and> endc < m_end (atoms1 ! i1)
             then highlight_atoms beg endc skip_replaced func (Suc (Suc i1))
                    ((split i1 endc atoms1)[i1 := func (split i1 endc atoms1 ! i1)])
             else highlight_atoms beg endc skip_replaced func (Suc i1)
                    (atoms1[i1 := func (atoms1 ! i1)]))"
  by pat_completeness auto
termination
  by (relation "measure (\<lambda>(beg, endc, skip_replaced, func, i, atoms). length atoms - i)")
     (auto simp: length_split)

declare highlight_atoms.simps [simp del]

definition highlight_line ::
  "ByteCoord \<Rightarrow> ByteCoord \<Rightarrow> bool \<Rightarrow> (DisplayAtom \<Rightarrow> DisplayAtom) \<Rightarrow> DisplayLine \<Rightarrow> DisplayLine" where
  "highlight_line beg endc skip_replaced func l =
     (if snd (m_range l) \<le> beg \<or> endc < fst (m_range l) then l
      else l\<lparr>m_atoms := highlight_atoms beg endc skip_replaced func 0 (m_atoms l)\<rparr>)"

definition highlight_range ::
  "DisplayBuffer \<Rightarrow> ByteCoord \<Rightarrow> ByteCoord \<Rightarrow> bool \<Rightarrow> (DisplayAtom \<Rightarrow> DisplayAtom) \<Rightarrow> DisplayBuffer" where
  "highlight_range display_buffer beg endc skip_replaced func =
     (if beg = endc \<or> endc \<le> fst (range display_buffer) \<or> beg \<ge> snd (range display_buffer)
      then display_buffer
      else display_buffer\<lparr>lines := map (highlight_line beg endc skip_replaced func) (lines display_buffer)\<rparr>)"

definition apply_face :: "Face \<Rightarrow> DisplayAtom \<Rightarrow> DisplayAtom" where
  "apply_face f atom =
     (let a1 = (if fg f \<noteq> Default then atom\<lparr>face := (face atom)\<lparr>fg := fg f\<rparr>\<rparr> else atom);
          a2 = (if bg f \<noteq> Default then a1\<lparr>face := (face a1)\<lparr>bg := bg f\<rparr>\<rparr> else a1)
      in if attributes f \<noteq> Normal
         then a2\<lparr>face := (face a2)\<lparr>attributes := attributes (face a2) OR attributes f\<rparr>\<rparr>
         else a2)"

definition visit_atom ::
  "ByteCoord \<Rightarrow> ByteCoord \<Rightarrow> bool \<Rightarrow> (DisplayAtom \<Rightarrow> DisplayAtom) \<Rightarrow> DisplayAtom \<Rightarrow> DisplayAtom list" where
  "visit_atom beg endc skip_replaced func a =
     (if \<not> has_buffer_range a \<or> \<not> (m_begin a < endc \<and> beg < m_end a) then [a]
      else if m_type a = ReplacedBufferRange then (if skip_replaced then [a] else [func a])
      else (if m_begin a < beg then [a\<lparr>m_end := beg\<rparr>] else []) @
           (let right = (if m_begin a < beg then a\<lparr>m_begin := beg\<rparr> else a)
            in if endc < m_end a then [func (right\<lparr>m_end := endc\<rparr>), right\<lparr>m_begin := endc\<rparr>]
               else [func right]))"

section \<open>Simple highlighters\<close>

text \<open>The closure returned by \<open>fill_factory\<close>; \<open>facespec\<close> is its parameter.\<close>

definition fill :: "string \<Rightarrow> Context \<Rightarrow> HighlightFlags \<Rightarrow> DisplayBuffer \<Rightarrow> DisplayBuffer" where
  "fill facespec context flags display_buffer =
     (let range = range display_buffer
      in highlight_range display_buffer (fst range) (snd range) True
           (apply_face (get_face context facespec)))"

text \<open>
  The closure returned by \<open>flag_lines_factory\<close>, with the colour \<open>bg\<close> and the option
  name it captures. A \<open>LineAndFlag\<close> is (line, colour, text). The width and the
  padding count characters (\<open>char_length\<close>), not bytes.
\<close>

definition flag_line ::
  "Color \<Rightarrow> LineAndFlag list \<Rightarrow> nat \<Rightarrow> DisplayLine \<Rightarrow> error + DisplayLine" where
  "flag_line bgc lns width l =
     (if line (fst (m_range l)) + 1 > INT_MAX then Inl SignedOverflow
      else
        let line_num = line (fst (m_range l)) + 1;
            it = find (\<lambda>lf. fst lf = line_num) lns;
            content = (case it of Some lf \<Rightarrow> snd (snd lf) | None \<Rightarrow> replicate width CHR '' '');
            content' = content @ replicate (width - char_length content) CHR '' '';
            atom = text_atom content'
                     \<lparr>fg = (case it of Some lf \<Rightarrow> fst (snd lf) | None \<Rightarrow> Default),
                      bg = bgc, attributes = Normal\<rparr>
        in Inr (line_insert 0 atom l))"

definition flag_lines ::
  "Color \<Rightarrow> string \<Rightarrow> Context \<Rightarrow> HighlightFlags \<Rightarrow> DisplayBuffer \<Rightarrow> error + DisplayBuffer" where
  "flag_lines bgc option_name context flags display_buffer =
     (let lns = line_flags context option_name;
          width = fold (\<lambda>l w. max w (char_length (snd (snd l)))) lns 0
      in case each_line (flag_line bgc lns width) (lines display_buffer) of
           Inl e \<Rightarrow> Inl e
         | Inr ls \<Rightarrow> Inr (display_buffer\<lparr>lines := ls\<rparr>))"

text \<open>\<open>highlight_selections\<close>: its two loops over the selections, from the index \<open>i\<close>.\<close>

fun highlight_selection_ranges ::
  "Context \<Rightarrow> nat \<Rightarrow> Selection list \<Rightarrow> DisplayBuffer \<Rightarrow> DisplayBuffer" where
  "highlight_selection_ranges context i [] display_buffer = display_buffer"
| "highlight_selection_ranges context i (sel # sels) display_buffer =
     (let forward = (anchor sel \<le> cursor sel);
          beg = (if forward then anchor sel else char_next context (cursor sel));
          endc = (if forward then cursor sel else char_next context (anchor sel));
          primary = (i = main_index context);
          sel_face = get_face context (if primary then ''PrimarySelection'' else ''SecondarySelection'')
      in highlight_selection_ranges context (Suc i) sels
           (highlight_range display_buffer beg endc False (apply_face sel_face)))"

fun highlight_selection_cursors ::
  "Context \<Rightarrow> nat \<Rightarrow> Selection list \<Rightarrow> DisplayBuffer \<Rightarrow> DisplayBuffer" where
  "highlight_selection_cursors context i [] display_buffer = display_buffer"
| "highlight_selection_cursors context i (sel # sels) display_buffer =
     (let primary = (i = main_index context);
          cur_face = get_face context (if primary then ''PrimaryCursor'' else ''SecondaryCursor'')
      in highlight_selection_cursors context (Suc i) sels
           (highlight_range display_buffer (cursor sel) (char_next context (cursor sel)) False
              (apply_face cur_face)))"

definition highlight_selections :: "Context \<Rightarrow> HighlightFlags \<Rightarrow> DisplayBuffer \<Rightarrow> DisplayBuffer" where
  "highlight_selections context flags display_buffer =
     (if flags \<noteq> Highlight then display_buffer
      else highlight_selection_cursors context 0 (selections context)
             (highlight_selection_ranges context 0 (selections context) display_buffer))"

subsection \<open>Buffer iterators\<close>

text \<open>
  Modelled from the spec: the byte-position iterator of the buffer (buffer.hh is not part
  of the sources). An iterator is the coordinate of its byte. \<open>next_coord\<close> is \<open>++\<close>: the
  next byte of the line, after the last byte of a line the first byte of the next line;
  \<open>prev_coord\<close> is \<open>--\<close>. \<open>byte_at\<close> reads the byte under a coordinate; reading where
  there is no byte is the error \<open>OutOfRange\<close> in the loops below. \<open>bytes_left\<close> and
  \<open>bytes_before\<close> count the bytes from a coordinate to the end of the buffer and from
  its start to the coordinate: they bound the loops.
\<close>

definition next_coord :: "Buffer \<Rightarrow> ByteCoord \<Rightarrow> ByteCoord" where
  "next_coord b c =
     (if column c + 1 < int (length (buf_line b (line c))) then (line c, column c + 1)
      else (line c + 1, 0))"

definition prev_coord :: "Buffer \<Rightarrow> ByteCoord \<Rightarrow> ByteCoord" where
  "prev_coord b c =
     (if column c > 0 then (line c, column c - 1)
      else (line c - 1, int (length (buf_line b (line c - 1))) - 1))"

definition byte_at :: "Buffer \<Rightarrow> ByteCoord \<Rightarrow> char" where
  "byte_at b c = buf_line b (line c) ! nat (column c)"

definition bytes_left :: "Buffer \<Rightarrow> ByteCoord \<Rightarrow> nat" where
  "bytes_left b c =
     (if on_bytes (buf_lines b) c
      then length (concat (drop (nat (line c)) (buf_lines b))) - nat (column c)
      else 0)"

definition bytes_before :: "Buffer \<Rightarrow> ByteCoord \<Rightarrow> nat" where
  "bytes_before b c =
     (if on_bytes (buf_lines b) c
      then Suc (length (concat (take (nat (line c)) (buf_lines b))) + nat (column c))
      else 0)"

lemma bytes_left_pos: "on_bytes (buf_lines b) c \<Longrightarrow> 0 < bytes_left b c"
proof -
  assume v: "on_bytes (buf_lines b) c"
  then have l: "nat (line c) < length (buf_lines b)" by (auto simp: on_bytes_def)
  have "drop (nat (line c)) (buf_lines b) = buf_lines b ! nat (line c) # drop (Suc (nat (line c))) (buf_lines b)"
    using l by (rule Cons_nth_drop_Suc[symmetric])
  then show ?thesis using v by (auto simp: bytes_left_def on_bytes_def)
qed

lemma bytes_left_next:
  assumes v: "on_bytes (buf_lines b) c"
  shows "bytes_left b (next_coord b c) < bytes_left b c"
proof -
  obtain l k where c: "c = (l, k)" by (cases c)
  have l: "0 \<le> l" "nat l < length (buf_lines b)" and k: "0 \<le> k" "k < int (length (buf_lines b ! nat l))"
    using v c by (auto simp: on_bytes_def)
  have d: "drop (nat l) (buf_lines b) = buf_lines b ! nat l # drop (Suc (nat l)) (buf_lines b)"
    using l by (intro Cons_nth_drop_Suc[symmetric])
  have cur: "bytes_left b c = length (buf_lines b ! nat l) - nat k + length (concat (drop (Suc (nat l)) (buf_lines b)))"
    using v c k d by (simp add: bytes_left_def)
  show ?thesis
  proof (cases "k + 1 < int (length (buf_lines b ! nat l))")
    case True
    then have n: "next_coord b c = (l, k + 1)" using c by (simp add: next_coord_def buf_line_def)
    have "on_bytes (buf_lines b) (l, k + 1)" using True l k by (simp add: on_bytes_def)
    then have "bytes_left b (l, k + 1) = length (buf_lines b ! nat l) - nat (k + 1) + length (concat (drop (Suc (nat l)) (buf_lines b)))"
      using d True k by (simp add: bytes_left_def)
    then show ?thesis unfolding n cur using True k by simp arith
  next
    case False
    then have n: "next_coord b c = (l + 1, 0)" using c by (simp add: next_coord_def buf_line_def)
    have s: "nat (l + 1) = Suc (nat l)" using l by simp
    have "bytes_left b (l + 1, 0) \<le> length (concat (drop (Suc (nat l)) (buf_lines b)))"
      by (simp add: bytes_left_def s)
    then show ?thesis unfolding n cur using k by simp
  qed
qed

text \<open>
  The loop \<open>for (BufferIterator it = begin; it != end; ++it)\<close> of \<open>expand_tabulations\<close>
  and \<open>show_whitespaces\<close> up to its \<open>break\<close>: the iterator at the first byte that
  satisfies the test, none when the loop reaches \<open>end\<close>.
\<close>

function find_byte :: "(char \<Rightarrow> bool) \<Rightarrow> Buffer \<Rightarrow> ByteCoord \<Rightarrow> ByteCoord \<Rightarrow> error + ByteCoord option" where
  "find_byte test b it endc =
     (if it = endc then Inr None
      else if \<not> on_bytes (buf_lines b) it then Inl OutOfRange
      else if test (byte_at b it) then Inr (Some it)
      else find_byte test b (next_coord b it) endc)"
  by pat_completeness auto
termination
  by (relation "measure (\<lambda>(test, b, it, endc). bytes_left b it)") (auto simp: bytes_left_next)

declare find_byte.simps [simp del]

text \<open>
  Modelled from the spec: \<open>get_column\<close> (buffer_utils.hh is not part of the sources): the
  display column of a coordinate, where each tab before it reaches the next tab stop and
  every other character takes one column. Division and remainder are those of C++, which
  truncate.
\<close>

function column_loop :: "int \<Rightarrow> string \<Rightarrow> int \<Rightarrow> int" where
  "column_loop ts rest col =
     (if rest = [] then col
      else column_loop ts (utf8_next rest)
             (if hd rest = CHR 0x09 then (col sdiv ts + 1) * ts else col + 1))"
  by pat_completeness auto
termination
  by (relation "measure (\<lambda>(ts, rest, col). length rest)") (auto simp: length_utf8_next)

declare column_loop.simps [simp del]

definition get_column :: "Buffer \<Rightarrow> int \<Rightarrow> ByteCoord \<Rightarrow> int" where
  "get_column b ts c = column_loop ts (take (nat (column c)) (buf_line b (line c))) 0"

text \<open>Putting atoms in front of the result of the rest of a loop that may fail.\<close>

definition prepend :: "'a list \<Rightarrow> error + 'a list \<Rightarrow> error + 'a list" where
  "prepend xs r = (case r of Inl e \<Rightarrow> Inl e | Inr ys \<Rightarrow> Inr (xs @ ys))"

text \<open>
  The loops of \<open>expand_tabulations\<close> over the atoms of a line, from the atom under
  \<open>atom_it\<close> on: the atoms before the iterator are not read again. \<open>line.split\<close> puts
  the part of the atom before the position in front of the iterator; after the two splits
  the iterator is on the atom of the tab alone, which is replaced, and the loop goes on
  with the atom after it. \<open>tabstop - (column % tabstop)\<close> with a \<open>tabstop\<close> of 0 is
  the error \<open>DivisionByZero\<close>.
\<close>

definition atom_size :: "Buffer \<Rightarrow> DisplayAtom \<Rightarrow> nat" where
  "atom_size b a = (if m_type a = BufferRange then Suc (bytes_left b (m_begin a)) else 1)"

lemma find_byte_left:
  "find_byte test b it endc = Inr (Some r) \<Longrightarrow> on_bytes (buf_lines b) r \<and> bytes_left b r \<le> bytes_left b it"
proof (induction test b it endc rule: find_byte.induct)
  case (1 test b it endc)
  show ?case
  proof (cases "it \<noteq> endc \<and> on_bytes (buf_lines b) it \<and> \<not> test (byte_at b it)")
    case True
    then have "find_byte test b (next_coord b it) endc = Inr (Some r)"
      using 1(2) by (simp add: find_byte.simps[of test b it])
    with 1(1) True have "on_bytes (buf_lines b) r \<and> bytes_left b r \<le> bytes_left b (next_coord b it)" by simp
    then show ?thesis using bytes_left_next[of b it] True by simp
  next
    case False
    then show ?thesis using 1(2) by (auto simp: find_byte.simps[of test b it] split: if_splits)
  qed
qed

function expand_tabulations_atoms :: "Context \<Rightarrow> DisplayAtom list \<Rightarrow> error + DisplayAtom list" where
  "expand_tabulations_atoms context [] = Inr []"
| "expand_tabulations_atoms context (a # rest) =
     (if m_type a \<noteq> BufferRange then prepend [a] (expand_tabulations_atoms context rest)
      else case find_byte (\<lambda>c. c = CHR 0x09) (buffer context) (m_begin a) (m_end a) of
        Inl e \<Rightarrow> Inl e
      | Inr None \<Rightarrow> prepend [a] (expand_tabulations_atoms context rest)
      | Inr (Some it) \<Rightarrow>
          let before = (if it \<noteq> m_begin a then [a\<lparr>m_end := it\<rparr>] else []);
              atom1 = (if it \<noteq> m_begin a then a\<lparr>m_begin := it\<rparr> else a);
              nxt = next_coord (buffer context) it;
              after = (if nxt \<noteq> m_end a then [atom1\<lparr>m_begin := nxt\<rparr>] else []);
              atom2 = (if nxt \<noteq> m_end a then atom1\<lparr>m_end := nxt\<rparr> else atom1)
          in if tabstop context = 0 then Inl DivisionByZero
             else
               let column = get_column (buffer context) (tabstop context) it;
                   count = tabstop context - (column smod tabstop context);
                   padding = replicate (nat count) CHR '' ''
               in prepend (before @ [replace padding atom2])
                    (expand_tabulations_atoms context (after @ rest)))"
  by pat_completeness auto
termination
proof (relation "measure (\<lambda>(context, atoms). sum_list (map (atom_size (buffer context)) atoms))", goal_cases)
  case 1
  show ?case by simp
next
  case (2 ctx a rest)
  then show ?case by (simp add: atom_size_def)
next
  case (3 ctx a rest x)
  then show ?case by (simp add: atom_size_def)
next
  case (4 ctx a rest x it before atom1 nxt after atom2 column count padding)
  have f: "find_byte (\<lambda>c. c = CHR 0x09) (buffer ctx) (m_begin a) (m_end a) = Inr (Some it)"
    using 4(2,3) by simp
  have "bytes_left (buffer ctx) nxt < bytes_left (buffer ctx) (m_begin a)"
    unfolding 4(6) using find_byte_left[OF f] bytes_left_next[of "buffer ctx" it] by simp
  then show ?case using 4(1) unfolding 4(7) 4(5) by (auto simp: atom_size_def)
qed

text \<open>The body of a loop over the display lines that rewrites the atoms of the line.\<close>

definition atoms_of_line :: "(DisplayAtom list \<Rightarrow> error + DisplayAtom list) \<Rightarrow> DisplayLine \<Rightarrow> error + DisplayLine" where
  "atoms_of_line body l = (case body (m_atoms l) of Inl e \<Rightarrow> Inl e | Inr as \<Rightarrow> Inr (l\<lparr>m_atoms := as\<rparr>))"

definition expand_tabulations :: "Context \<Rightarrow> HighlightFlags \<Rightarrow> DisplayBuffer \<Rightarrow> error + DisplayBuffer" where
  "expand_tabulations context flags display_buffer =
     (case each_line (atoms_of_line (expand_tabulations_atoms context)) (lines display_buffer) of
        Inl e \<Rightarrow> Inl e
      | Inr ls \<Rightarrow> Inr (display_buffer\<lparr>lines := ls\<rparr>))"

text \<open>The UTF-8 bytes of the three marks of \<open>show_whitespaces\<close>.\<close>

definition rightwards_arrow :: string where "rightwards_arrow = [CHR 0xE2, CHR 0x86, CHR 0x92]"
definition middle_dot :: string where "middle_dot = [CHR 0xC2, CHR 0xB7]"
definition not_sign :: string where "not_sign = [CHR 0xC2, CHR 0xAC]"

function show_whitespaces_atoms :: "Context \<Rightarrow> DisplayAtom list \<Rightarrow> error + DisplayAtom list" where
  "show_whitespaces_atoms context [] = Inr []"
| "show_whitespaces_atoms context (a # rest) =
     (if m_type a \<noteq> BufferRange then prepend [a] (show_whitespaces_atoms context rest)
      else case find_byte (\<lambda>c. c = CHR 0x09 \<or> c = CHR '' '' \<or> c = CHR 0x0A)
                  (buffer context) (m_begin a) (m_end a) of
        Inl e \<Rightarrow> Inl e
      | Inr None \<Rightarrow> prepend [a] (show_whitespaces_atoms context rest)
      | Inr (Some it) \<Rightarrow>
          let c = byte_at (buffer context) it;
              before = (if it \<noteq> m_begin a then [a\<lparr>m_end := it\<rparr>] else []);
              atom1 = (if it \<noteq> m_begin a then a\<lparr>m_begin := it\<rparr> else a);
              nxt = next_coord (buffer context) it;
              after = (if nxt \<noteq> m_end a then [atom1\<lparr>m_begin := nxt\<rparr>] else []);
              atom2 = (if nxt \<noteq> m_end a then atom1\<lparr>m_end := nxt\<rparr> else atom1)
          in if c = CHR 0x09 \<and> tabstop context = 0 then Inl DivisionByZero
             else
               let column = get_column (buffer context) (tabstop context) it;
                   count = tabstop context - (column smod tabstop context);
                   atom3 = (if c = CHR 0x09
                            then replace (rightwards_arrow @ replicate (nat (count - 1)) CHR '' '') atom2
                            else if c = CHR '' '' then replace middle_dot atom2
                            else if c = CHR 0x0A then replace not_sign atom2
                            else atom2)
               in prepend (before @ [atom3]) (show_whitespaces_atoms context (after @ rest)))"
  by pat_completeness auto
termination
proof (relation "measure (\<lambda>(context, atoms). sum_list (map (atom_size (buffer context)) atoms))", goal_cases)
  case 1
  show ?case by simp
next
  case (2 ctx a rest)
  then show ?case by (simp add: atom_size_def)
next
  case (3 ctx a rest x)
  then show ?case by (simp add: atom_size_def)
next
  case (4 ctx a rest x it c before atom1 nxt after atom2 column count atom3)
  have f: "find_byte (\<lambda>c. c = CHR 0x09 \<or> c = CHR '' '' \<or> c = CHR 0x0A) (buffer ctx) (m_begin a) (m_end a) = Inr (Some it)"
    using 4(2,3) by simp
  have "bytes_left (buffer ctx) nxt < bytes_left (buffer ctx) (m_begin a)"
    unfolding 4(7) using find_byte_left[OF f] bytes_left_next[of "buffer ctx" it] by simp
  then show ?case using 4(1) unfolding 4(8) 4(6) by (auto simp: atom_size_def)
qed

definition show_whitespaces :: "Context \<Rightarrow> HighlightFlags \<Rightarrow> DisplayBuffer \<Rightarrow> error + DisplayBuffer" where
  "show_whitespaces context flags display_buffer =
     (case each_line (atoms_of_line (show_whitespaces_atoms context)) (lines display_buffer) of
        Inl e \<Rightarrow> Inl e
      | Inr ls \<Rightarrow> Inr (display_buffer\<lparr>lines := ls\<rparr>))"

text \<open>
  \<open>expand_unprintable\<close>. The bytes from the iterator to \<open>end\<close>, or to the end of the
  line of the iterator if that is nearer: a code point does not run over the end of a
  line. \<open>advance\<close> is \<open>++\<close> as many times as the code point has bytes.
\<close>

definition bytes_until :: "Buffer \<Rightarrow> ByteCoord \<Rightarrow> ByteCoord \<Rightarrow> string" where
  "bytes_until b it endc =
     (if line endc = line it
      then take (nat (column endc - column it)) (drop (nat (column it)) (buf_line b (line it)))
      else drop (nat (column it)) (buf_line b (line it)))"

definition advance :: "Buffer \<Rightarrow> ByteCoord \<Rightarrow> nat \<Rightarrow> ByteCoord" where
  "advance b it k =
     (if column it + int k < int (length (buf_line b (line it))) then (line it, column it + int k)
      else (line it + 1, 0))"

lemma bytes_left_advance:
  assumes v: "on_bytes (buf_lines b) c" and k: "0 < k"
  shows "bytes_left b (advance b c k) < bytes_left b c"
proof -
  obtain l j where c: "c = (l, j)" by (cases c)
  have l: "0 \<le> l" "nat l < length (buf_lines b)" and j: "0 \<le> j" "j < int (length (buf_lines b ! nat l))"
    using v c by (auto simp: on_bytes_def)
  have d: "drop (nat l) (buf_lines b) = buf_lines b ! nat l # drop (Suc (nat l)) (buf_lines b)"
    using l by (intro Cons_nth_drop_Suc[symmetric])
  have cur: "bytes_left b c = length (buf_lines b ! nat l) - nat j + length (concat (drop (Suc (nat l)) (buf_lines b)))"
    using v c j d by (simp add: bytes_left_def)
  show ?thesis
  proof (cases "j + int k < int (length (buf_lines b ! nat l))")
    case True
    then have n: "advance b c k = (l, j + int k)" using c by (simp add: advance_def buf_line_def)
    have "on_bytes (buf_lines b) (l, j + int k)" using True l j by (simp add: on_bytes_def)
    then have "bytes_left b (l, j + int k) = length (buf_lines b ! nat l) - nat (j + int k) + length (concat (drop (Suc (nat l)) (buf_lines b)))"
      using d True j by (simp add: bytes_left_def)
    then show ?thesis unfolding n cur using True j k by simp arith
  next
    case False
    then have n: "advance b c k = (l + 1, 0)" using c by (simp add: advance_def buf_line_def)
    have s: "nat (l + 1) = Suc (nat l)" using l by simp
    have "bytes_left b (l + 1, 0) \<le> length (concat (drop (Suc (nat l)) (buf_lines b)))"
      by (simp add: bytes_left_def s)
    then show ?thesis unfolding n cur using j by simp
  qed
qed

lemma bytes_until_nonempty:
  assumes "on_bytes (buf_lines b) it" "it < endc"
  shows "bytes_until b it endc \<noteq> []"
proof -
  obtain l j where c: "it = (l, j)" by (cases it)
  obtain l' j' where e: "endc = (l', j')" by (cases endc)
  have j: "0 \<le> j" "j < int (length (buf_lines b ! nat l))" using assms(1) c by (auto simp: on_bytes_def)
  show ?thesis
  proof (cases "l' = l")
    case True
    then have "j < j'" using assms(2) c e by simp
    then show ?thesis using True c e j by (simp add: bytes_until_def buf_line_def)
  next
    case False
    then show ?thesis using c e j by (simp add: bytes_until_def buf_line_def)
  qed
qed

text \<open>
  The loop \<open>for (it = ..., end = ...; it < end;)\<close> of \<open>expand_unprintable\<close> up to its
  \<open>break\<close>: the iterator at the first code point that is neither a newline nor
  printable, the iterator after it, and the code point.
\<close>

function find_unprintable ::
  "(Codepoint \<Rightarrow> bool) \<Rightarrow> Buffer \<Rightarrow> ByteCoord \<Rightarrow> ByteCoord \<Rightarrow> error + (ByteCoord \<times> ByteCoord \<times> Codepoint) option" where
  "find_unprintable printable b it endc =
     (if \<not> it < endc then Inr None
      else if \<not> on_bytes (buf_lines b) it then Inl OutOfRange
      else
        let cp = utf8_codepoint (bytes_until b it endc);
            nxt = advance b it (length (bytes_until b it endc) - length (utf8_next (bytes_until b it endc)))
        in if cp \<noteq> 10 \<and> \<not> printable cp then Inr (Some (it, nxt, cp))
           else find_unprintable printable b nxt endc)"
  by pat_completeness auto
termination
proof (relation "measure (\<lambda>(printable, b, it, endc). bytes_left b it)", goal_cases)
  case 1
  show ?case by simp
next
  case (2 printable b it endc cp nxt)
  have "bytes_until b it endc \<noteq> []" using 2(1,2) by (intro bytes_until_nonempty) auto
  then have "0 < length (bytes_until b it endc) - length (utf8_next (bytes_until b it endc))"
    using length_utf8_next by simp
  then show ?case using 2 by (simp add: bytes_left_advance)
qed

declare find_unprintable.simps [simp del]

text \<open>\<open>oss << std::hex << cp\<close>: the digits of the code point in base 16, in lower case.\<close>

definition hex_digit :: "nat \<Rightarrow> char" where
  "hex_digit d = ''0123456789abcdef'' ! d"

function hex_digits :: "nat \<Rightarrow> string" where
  "hex_digits n = (if n < 16 then [hex_digit n] else hex_digits (n div 16) @ [hex_digit (n mod 16)])"
  by pat_completeness auto
termination
  by (relation "measure id") auto

declare hex_digits.simps [simp del]

lemma find_unprintable_left:
  "find_unprintable printable b it endc = Inr (Some (r, nxt, cp)) \<Longrightarrow>
   on_bytes (buf_lines b) r \<and> bytes_left b r \<le> bytes_left b it \<and> bytes_left b nxt < bytes_left b r"
proof (induction printable b it endc rule: find_unprintable.induct)
  case (1 printable b it endc)
  let ?rest = "bytes_until b it endc"
  let ?n = "advance b it (length ?rest - length (utf8_next ?rest))"
  have v: "it < endc" "on_bytes (buf_lines b) it"
    using 1(2) by (auto simp: find_unprintable.simps[of printable b it] split: if_splits)
  have "?rest \<noteq> []" using v by (intro bytes_until_nonempty) auto
  then have pos: "0 < length ?rest - length (utf8_next ?rest)" using length_utf8_next by simp
  have dec: "bytes_left b ?n < bytes_left b it" using v(2) pos by (rule bytes_left_advance)
  show ?case
  proof (cases "utf8_codepoint ?rest \<noteq> 10 \<and> \<not> printable (utf8_codepoint ?rest)")
    case True
    then have "r = it" "nxt = ?n" using 1(2) v by (auto simp: find_unprintable.simps[of printable b it] Let_def)
    then show ?thesis using v dec by simp
  next
    case False
    then have "find_unprintable printable b ?n endc = Inr (Some (r, nxt, cp))"
      using 1(2) v by (auto simp: find_unprintable.simps[of printable b it] Let_def)
    from 1(1)[OF _ _ refl refl False this] v
    show ?thesis using dec by simp
  qed
qed

function expand_unprintable_atoms :: "Context \<Rightarrow> DisplayAtom list \<Rightarrow> error + DisplayAtom list" where
  "expand_unprintable_atoms context [] = Inr []"
| "expand_unprintable_atoms context (a # rest) =
     (if m_type a \<noteq> BufferRange then prepend [a] (expand_unprintable_atoms context rest)
      else case find_unprintable (iswprint context) (buffer context) (m_begin a) (m_end a) of
        Inl e \<Rightarrow> Inl e
      | Inr None \<Rightarrow> prepend [a] (expand_unprintable_atoms context rest)
      | Inr (Some (it, nxt, cp)) \<Rightarrow>
          let str = ''U+'' @ hex_digits cp;
              before = (if it \<noteq> m_begin a then [a\<lparr>m_end := it\<rparr>] else []);
              atom1 = (if it \<noteq> m_begin a then a\<lparr>m_begin := it\<rparr> else a);
              after = (if nxt < m_end atom1 then [atom1\<lparr>m_begin := nxt\<rparr>] else []);
              atom2 = (if nxt < m_end atom1 then atom1\<lparr>m_end := nxt\<rparr> else atom1);
              atom3 = (replace str atom2)\<lparr>face := \<lparr>fg = Red, bg = Black, attributes = Normal\<rparr>\<rparr>
          in prepend (before @ [atom3]) (expand_unprintable_atoms context (after @ rest)))"
  by pat_completeness auto
termination
proof (relation "measure (\<lambda>(context, atoms). sum_list (map (atom_size (buffer context)) atoms))", goal_cases)
  case 1
  show ?case by simp
next
  case (2 ctx a rest)
  then show ?case by (simp add: atom_size_def)
next
  case (3 ctx a rest x)
  then show ?case by (simp add: atom_size_def)
next
  case (4 ctx a rest x2 x2a it y nxt cp str before atom1 after atom2 atom3)
  have f: "find_unprintable (iswprint ctx) (buffer ctx) (m_begin a) (m_end a) = Inr (Some (it, nxt, cp))"
    using 4(2,3,4,5) by simp
  have "bytes_left (buffer ctx) nxt < bytes_left (buffer ctx) (m_begin a)"
    using find_unprintable_left[OF f] by simp
  then show ?case using 4(1) unfolding 4(9) 4(8) by (auto simp: atom_size_def)
qed

definition expand_unprintable :: "Context \<Rightarrow> HighlightFlags \<Rightarrow> DisplayBuffer \<Rightarrow> error + DisplayBuffer" where
  "expand_unprintable context flags display_buffer =
     (case each_line (atoms_of_line (expand_unprintable_atoms context)) (lines display_buffer) of
        Inl e \<Rightarrow> Inl e
      | Inr ls \<Rightarrow> Inr (display_buffer\<lparr>lines := ls\<rparr>))"

lemma bytes_before_prev:
  assumes v: "on_bytes (buf_lines b) c"
  shows "bytes_before b (prev_coord b c) < bytes_before b c"
proof -
  obtain l k where c: "c = (l, k)" by (cases c)
  have l: "0 \<le> l" "nat l < length (buf_lines b)" and k: "0 \<le> k" "k < int (length (buf_lines b ! nat l))"
    using v c by (auto simp: on_bytes_def)
  have cur: "bytes_before b c = Suc (length (concat (take (nat l) (buf_lines b))) + nat k)"
    using v c by (simp add: bytes_before_def)
  show ?thesis
  proof (cases "k > 0")
    case True
    then have p: "prev_coord b c = (l, k - 1)" using c by (simp add: prev_coord_def)
    have "on_bytes (buf_lines b) (l, k - 1)" using True l k by (simp add: on_bytes_def)
    then have "bytes_before b (l, k - 1) = Suc (length (concat (take (nat l) (buf_lines b))) + nat (k - 1))"
      by (simp add: bytes_before_def)
    then show ?thesis unfolding p cur using True by simp
  next
    case False
    then have p: "prev_coord b c = (l - 1, int (length (buf_lines b ! nat (l - 1))) - 1)"
      using c by (simp add: prev_coord_def buf_line_def)
    show ?thesis
    proof (cases "on_bytes (buf_lines b) (prev_coord b c)")
      case v': True
      then have l1: "1 \<le> l" and len: "0 < length (buf_lines b ! nat (l - 1))"
        unfolding p by (auto simp: on_bytes_def)
      have s: "nat l = Suc (nat (l - 1))" using l1 by simp
      have t: "take (nat l) (buf_lines b) = take (nat (l - 1)) (buf_lines b) @ [buf_lines b ! nat (l - 1)]"
        unfolding s using l s by (intro take_Suc_conv_app_nth) simp
      have "bytes_before b (prev_coord b c) =
            Suc (length (concat (take (nat (l - 1)) (buf_lines b))) + (length (buf_lines b ! nat (l - 1)) - 1))"
        using v' unfolding p by (simp add: bytes_before_def nat_diff_distrib)
      then show ?thesis unfolding cur t using len by simp
    next
      case False
      then show ?thesis unfolding cur by (simp add: bytes_before_def)
    qed
  qed
qed

text \<open>
  Modelled from the spec: \<open>skip_while\<close> and \<open>skip_while_reverse\<close> (utils.hh is not part
  of the sources) move the iterator while it is not at the end and the condition holds of
  its byte. They are given here with the conditions \<open>show_matching_char\<close> passes, which
  count the nesting in \<open>level\<close>; the result is the iterator and the level.
\<close>

function skip_forward :: "Buffer \<Rightarrow> char \<Rightarrow> char \<Rightarrow> ByteCoord \<Rightarrow> ByteCoord \<Rightarrow> int \<Rightarrow> error + (ByteCoord \<times> int)" where
  "skip_forward b first second it endc level =
     (if it = endc then Inr (it, level)
      else if \<not> on_bytes (buf_lines b) it then Inl OutOfRange
      else
        let c = byte_at b it
        in if c = first then skip_forward b first second (next_coord b it) endc (level + 1)
           else if c = second
           then (if level - 1 = 0 then Inr (it, level - 1)
                 else skip_forward b first second (next_coord b it) endc (level - 1))
           else skip_forward b first second (next_coord b it) endc level)"
  by pat_completeness auto
termination
  by (relation "measure (\<lambda>(b, first, second, it, endc, level). bytes_left b it)")
     (auto simp: bytes_left_next)

declare skip_forward.simps [simp del]

function skip_backward :: "Buffer \<Rightarrow> char \<Rightarrow> char \<Rightarrow> ByteCoord \<Rightarrow> ByteCoord \<Rightarrow> int \<Rightarrow> error + (ByteCoord \<times> int)" where
  "skip_backward b first second it begc level =
     (if it = begc then Inr (it, level)
      else if \<not> on_bytes (buf_lines b) it then Inl OutOfRange
      else
        let c = byte_at b it
        in if c = second then skip_backward b first second (prev_coord b it) begc (level + 1)
           else if c = first
           then (if level - 1 = 0 then Inr (it, level - 1)
                 else skip_backward b first second (prev_coord b it) begc (level - 1))
           else skip_backward b first second (prev_coord b it) begc level)"
  by pat_completeness auto
termination
  by (relation "measure (\<lambda>(b, first, second, it, begc, level). bytes_before b it)")
     (auto simp: bytes_before_prev)

declare skip_backward.simps [simp del]

definition matching_chars :: "(char \<times> char) list" where
  "matching_chars = [(CHR ''('', CHR '')''), (CHR ''{'', CHR ''}''), (CHR ''['', CHR '']''), (CHR ''<'', CHR ''>'')]"

text \<open>
  \<open>show_matching_char\<close>: the loop over the pairs for the byte \<open>c\<close> under the cursor
  \<open>pos\<close>, which ends at the first pair that has \<open>c\<close>; then the loop over the
  selections. \<open>rng\<close> is the local \<open>range\<close>, the range of the display buffer read once.
\<close>

fun show_matching_pairs ::
  "Context \<Rightarrow> BufferRange \<Rightarrow> ByteCoord \<Rightarrow> char \<Rightarrow> (char \<times> char) list \<Rightarrow> DisplayBuffer \<Rightarrow> error + DisplayBuffer" where
  "show_matching_pairs context rng pos c [] display_buffer = Inr display_buffer"
| "show_matching_pairs context rng pos c (pair # pairs) display_buffer =
     (let b = buffer context; f = get_face context ''MatchingChar''
      in if c = fst pair
         then (case skip_forward b (fst pair) (snd pair) (next_coord b pos) (snd rng) 1 of
                 Inl e \<Rightarrow> Inl e
               | Inr (it, level) \<Rightarrow>
                   Inr (if it \<noteq> snd rng
                        then highlight_range display_buffer it (next_coord b it) False (apply_face f)
                        else display_buffer))
         else if c = snd pair \<and> pos > fst rng
         then (case skip_backward b (fst pair) (snd pair) (prev_coord b pos) (fst rng) 1 of
                 Inl e \<Rightarrow> Inl e
               | Inr (it, level) \<Rightarrow>
                   if it \<noteq> fst rng
                   then Inr (highlight_range display_buffer it (next_coord b it) False (apply_face f))
                   else if \<not> on_bytes (buf_lines b) (fst rng) then Inl OutOfRange
                   else if byte_at b (fst rng) = fst pair \<and> level = 1
                   then Inr (highlight_range display_buffer it (next_coord b it) False (apply_face f))
                   else Inr display_buffer)
         else show_matching_pairs context rng pos c pairs display_buffer)"

fun show_matching_sels ::
  "Context \<Rightarrow> BufferRange \<Rightarrow> Selection list \<Rightarrow> DisplayBuffer \<Rightarrow> error + DisplayBuffer" where
  "show_matching_sels context rng [] display_buffer = Inr display_buffer"
| "show_matching_sels context rng (sel # sels) display_buffer =
     (let pos = cursor sel
      in if pos < fst rng \<or> pos \<ge> snd rng then show_matching_sels context rng sels display_buffer
         else if \<not> on_bytes (buf_lines (buffer context)) pos then Inl OutOfRange
         else case show_matching_pairs context rng pos (byte_at (buffer context) pos)
                     matching_chars display_buffer of
                Inl e \<Rightarrow> Inl e
              | Inr display_buffer' \<Rightarrow> show_matching_sels context rng sels display_buffer')"

definition show_matching_char :: "Context \<Rightarrow> HighlightFlags \<Rightarrow> DisplayBuffer \<Rightarrow> error + DisplayBuffer" where
  "show_matching_char context flags display_buffer =
     show_matching_sels context (range display_buffer) (selections context) display_buffer"

text \<open>
  The closure returned by \<open>highlight_line_option_factory\<close>, with the option name and the
  face it captures. \<open>line - 1\<close> is an \<open>int\<close> subtraction.
\<close>

definition highlight_line_option ::
  "string \<Rightarrow> string \<Rightarrow> Context \<Rightarrow> HighlightFlags \<Rightarrow> DisplayBuffer \<Rightarrow> error + DisplayBuffer" where
  "highlight_line_option option_name facespec context flags display_buffer =
     (let line = int_option context option_name
      in if line - 1 < INT_MIN then Inl SignedOverflow
         else Inr (highlight_range display_buffer (line - 1, 0) (line, 0) False
                     (apply_face (get_face context facespec))))"

text \<open>
  The ranges cached on the display buffer and on its lines cover the atoms that have a
  buffer range, as they do once \<open>compute_range\<close> has run.
\<close>

definition ranges_cover :: "DisplayBuffer \<Rightarrow> bool" where
  "ranges_cover db =
     (\<forall>l\<in>set (lines db). \<forall>a\<in>set (m_atoms l). has_buffer_range a \<longrightarrow>
        fst (m_range l) \<le> m_begin a \<and> m_end a \<le> snd (m_range l) \<and>
        fst (range db) \<le> m_begin a \<and> m_end a \<le> snd (range db))"

text \<open>
  The description of \<open>highlight_range\<close> as the specification words it, for one atom:
  every atom that straddles a bound is split there, a replaced one too.
\<close>

definition visit_atom_spec ::
  "ByteCoord \<Rightarrow> ByteCoord \<Rightarrow> bool \<Rightarrow> (DisplayAtom \<Rightarrow> DisplayAtom) \<Rightarrow> DisplayAtom \<Rightarrow> DisplayAtom list" where
  "visit_atom_spec beg endc skip_replaced func a =
     (if \<not> has_buffer_range a \<or> \<not> (m_begin a < endc \<and> beg < m_end a) then [a]
      else if skip_replaced \<and> m_type a = ReplacedBufferRange then [a]
      else (if m_begin a < beg then [a\<lparr>m_end := beg\<rparr>] else []) @
           (let right = (if m_begin a < beg then a\<lparr>m_begin := beg\<rparr> else a)
            in if endc < m_end a then [func (right\<lparr>m_end := endc\<rparr>), right\<lparr>m_begin := endc\<rparr>]
               else [func right]))"

text \<open>Every atom of the display buffer replaced by the atoms \<open>v\<close> gives for it.\<close>

definition visit_range :: "(DisplayAtom \<Rightarrow> DisplayAtom list) \<Rightarrow> DisplayBuffer \<Rightarrow> DisplayBuffer" where
  "visit_range v db = db\<lparr>lines := map (\<lambda>l. l\<lparr>m_atoms := concat (map v (m_atoms l))\<rparr>) (lines db)\<rparr>"


definition yellow :: Face where
  "yellow = \<lparr>fg = Yellow, bg = Default, attributes = Normal\<rparr>"

text \<open>
  A buffer whose line holds a tab, a space, the control character DEL and a letter
  outside ASCII, and a buffer with nested parentheses and a cursor on two of them.
\<close>

definition ctl_context :: Context where
  "ctl_context =
     \<lparr>buffer = \<lparr>buf_lines = [[CHR ''a'', CHR 0x09, CHR '' '', CHR 0x7F, CHR 0xC3, CHR 0xA9, CHR 0x0A]], timestamp = 1,
                 changes_since = (\<lambda>t. []), is_valid = (\<lambda>c. True)\<rparr>,
      selections = [], main_index = 0, tabstop = 4,
      line_flags = (\<lambda>n. []), int_option = (\<lambda>n. 1), get_face = (\<lambda>n. default_face),
      char_next = (\<lambda>c. (line c, column c + 1)), iswprint = (\<lambda>c. 32 \<le> c \<and> c < 127)\<rparr>"

definition paren_context :: Context where
  "paren_context =
     \<lparr>buffer = \<lparr>buf_lines = [''f(a(b)c)'' @ [CHR 0x0A]], timestamp = 1,
                 changes_since = (\<lambda>t. []), is_valid = (\<lambda>c. True)\<rparr>,
      selections = [((0, 1), (0, 1)), ((0,5),(0,5))], main_index = 0, tabstop = 4,
      line_flags = (\<lambda>n. []), int_option = (\<lambda>n. 1), get_face = (\<lambda>n. yellow),
      char_next = (\<lambda>c. (line c, column c + 1)), iswprint = (\<lambda>c. 32 \<le> c \<and> c < 127)\<rparr>"

definition replaced_line :: DisplayLine where
  "replaced_line =
     \<lparr>m_range = ((0, 0), (0, 4)),
      m_atoms = [replace ''U+7f'' (buffer_atom (0, 0) (0, 4))]\<rparr>"

definition replaced_display :: DisplayBuffer where
  "replaced_display = \<lparr>lines = [replaced_line], range = ((0, 0), (0, 4))\<rparr>"


definition numbered_display :: DisplayBuffer where
  "numbered_display =
     (viewport [0])\<lparr>lines := [line_insert 0 (text_atom ([CHR '' '', CHR ''1''] @ bar) default_face) (whole_line 0)]\<rparr>"

definition flagged_display :: DisplayBuffer where
  "flagged_display =
     (viewport [0])\<lparr>lines := [line_insert 0 (text_atom [] \<lparr>fg = Default, bg = Red, attributes = Normal\<rparr>) (whole_line 0)]\<rparr>"

section \<open>Word database\<close>

text \<open>
  Modelled from the spec: \<open>is_word\<close> (unicode.hh is not part of the sources): a word
  character is alphanumeric, an underscore or a non-ASCII letter. Which code points
  outside ASCII are letters is left to \<open>letter\<close>, a parameter of everything that
  reads words.
\<close>

definition is_word :: "(Codepoint \<Rightarrow> bool) \<Rightarrow> Codepoint \<Rightarrow> bool" where
  "is_word letter n =
     ((48 \<le> n \<and> n \<le> 57) \<or> (65 \<le> n \<and> n \<le> 90) \<or> (97 \<le> n \<and> n \<le> 122) \<or> n = 95 \<or>
      (128 \<le> n \<and> letter n))"

text \<open>
  \<open>get_words\<close>: the iterator walks the code points of the content; \<open>rest\<close> holds
  the bytes from \<open>it.base()\<close> on and \<open>cur\<close> those from \<open>word_start\<close> to the
  iterator while \<open>in_word\<close>. A word still open at the end of the content is not pushed.
\<close>

function get_words_loop ::
  "(Codepoint \<Rightarrow> bool) \<Rightarrow> string \<Rightarrow> string \<Rightarrow> bool \<Rightarrow> string list \<Rightarrow> string list" where
  "get_words_loop letter rest cur in_word res =
     (if rest = [] then res
      else
        let c = utf8_codepoint rest;
            word = is_word letter c;
            bytes = take (length rest - length (utf8_next rest)) rest
        in if \<not> in_word \<and> word then get_words_loop letter (utf8_next rest) bytes True res
           else if in_word \<and> \<not> word then get_words_loop letter (utf8_next rest) [] False (res @ [cur])
           else get_words_loop letter (utf8_next rest) (if in_word then cur @ bytes else cur) in_word res)"
  by pat_completeness auto
termination
  by (relation "measure (\<lambda>(letter, rest, cur, in_word, res). length rest)")
     (auto simp: length_utf8_next)

declare get_words_loop.simps [simp del]

definition get_words :: "(Codepoint \<Rightarrow> bool) \<Rightarrow> string \<Rightarrow> string list" where
  "get_words letter content = get_words_loop letter content [] False []"

text \<open>
  \<open>WordList\<close> is \<open>std::map<InternedString, int>\<close>: its entries in the order of the
  keys. \<open>wl_incr w\<close> is \<open>++wl[w]\<close>; \<open>wl_decr w\<close> is the body of the loop of
  \<open>remove_words\<close>, with its assertion.
\<close>

type_synonym WordList = "(string \<times> int) list"
type_synonym LineToWords = "string list list"

fun wl_incr :: "string \<Rightarrow> WordList \<Rightarrow> WordList" where
  "wl_incr w [] = [(w, 1)]"
| "wl_incr w ((k, c) # r) =
     (if w = k then (k, c + 1) # r
      else if w < k then (w, 1) # (k, c) # r
      else (k, c) # wl_incr w r)"

definition add_words :: "WordList \<Rightarrow> string list \<Rightarrow> WordList" where
  "add_words wl words = fold wl_incr words wl"

fun wl_decr :: "string \<Rightarrow> WordList \<Rightarrow> error + WordList" where
  "wl_decr w [] = Inl AssertFailed"
| "wl_decr w ((k, c) # r) =
     (if w = k then (if \<not> c > 0 then Inl AssertFailed
                     else if c - 1 = 0 then Inr r else Inr ((k, c - 1) # r))
      else case wl_decr w r of Inl e \<Rightarrow> Inl e | Inr r' \<Rightarrow> Inr ((k, c) # r'))"

fun remove_words :: "WordList \<Rightarrow> string list \<Rightarrow> error + WordList" where
  "remove_words wl [] = Inr wl"
| "remove_words wl (w # ws) =
     (case wl_decr w wl of Inl e \<Rightarrow> Inl e | Inr wl' \<Rightarrow> remove_words wl' ws)"

record WordDB =
  m_timestamp :: nat
  m_words :: WordList
  m_line_to_words :: LineToWords

text \<open>The constructor \<open>WordDB::WordDB(const Buffer&)\<close>.\<close>

definition new_WordDB :: "(Codepoint \<Rightarrow> bool) \<Rightarrow> Buffer \<Rightarrow> WordDB" where
  "new_WordDB letter buf =
     fold (\<lambda>l db. db\<lparr>m_line_to_words := m_line_to_words db @ [get_words letter l],
                      m_words := add_words (m_words db) (get_words letter l)\<rparr>)
          (buf_lines buf)
          \<lparr>m_timestamp = timestamp buf, m_words = [], m_line_to_words = []\<rparr>"

text \<open>
  The loops of \<open>update_db\<close>. \<open>copy_until\<close> is
  \<open>while (old_line < target) new_lines.push_back(m_line_to_words[old_line++])\<close>; a read
  outside the vector is the error \<open>OutOfRange\<close>. The variable \<open>old_line\<close> of the
  source is \<open>old_l\<close> here.
\<close>

function copy_until :: "LineToWords \<Rightarrow> int \<Rightarrow> int \<Rightarrow> LineToWords \<Rightarrow> error + (int \<times> LineToWords)" where
  "copy_until ltw target old_l new_lines =
     (if old_l < target
      then (if 0 \<le> old_l \<and> old_l < int (length ltw)
            then copy_until ltw target (old_l + 1) (new_lines @ [ltw ! nat old_l])
            else Inl OutOfRange)
      else Inr (old_l, new_lines))"
  by pat_completeness auto
termination
  by (relation "measure (\<lambda>(ltw, target, old_l, new_lines). nat (target - old_l))") auto

declare copy_until.simps [simp del]

function remove_until :: "LineToWords \<Rightarrow> int \<Rightarrow> int \<Rightarrow> WordList \<Rightarrow> error + (int \<times> WordList)" where
  "remove_until ltw last_line old_l words =
     (if old_l \<le> last_line
      then (if \<not> old_l < int (length ltw) then Inl AssertFailed
            else if old_l < 0 then Inl OutOfRange
            else case remove_words words (ltw ! nat old_l) of
                   Inl e \<Rightarrow> Inl e
                 | Inr words' \<Rightarrow> remove_until ltw last_line (old_l + 1) words')
      else Inr (old_l, words))"
  by pat_completeness auto
termination
  by (relation "measure (\<lambda>(ltw, last_line, old_l, words). nat (last_line + 1 - old_l))") auto

declare remove_until.simps [simp del]

function add_from :: "(Codepoint \<Rightarrow> bool) \<Rightarrow> Buffer \<Rightarrow> LineModification \<Rightarrow> int \<Rightarrow> LineToWords \<Rightarrow> WordList \<Rightarrow> LineToWords \<times> WordList" where
  "add_from letter buf modif l new_lines words =
     (if l \<le> num_added modif
      then (if new_line modif + l \<ge> line_count buf then (new_lines, words)
            else add_from letter buf modif (l + 1)
                   (new_lines @ [get_words letter (buf_line buf (new_line modif + l))])
                   (add_words words (get_words letter (buf_line buf (new_line modif + l)))))
      else (new_lines, words))"
  by pat_completeness auto
termination
  by (relation "measure (\<lambda>(letter, buf, modif, l, new_lines, words). nat (num_added modif + 1 - l))") auto

declare add_from.simps [simp del]

fun update_modifs ::
  "(Codepoint \<Rightarrow> bool) \<Rightarrow> Buffer \<Rightarrow> LineToWords \<Rightarrow> LineModification list \<Rightarrow> int \<Rightarrow> LineToWords \<Rightarrow> WordList
     \<Rightarrow> error + (int \<times> LineToWords \<times> WordList)" where
  "update_modifs letter buf ltw [] old_l new_lines words = Inr (old_l, new_lines, words)"
| "update_modifs letter buf ltw (modif # modifs) old_l new_lines words =
     (if \<not> (0 \<le> new_line modif \<and> new_line modif < line_count buf) then Inl AssertFailed
      else if \<not> old_l \<le> old_line modif then Inl AssertFailed
      else case copy_until ltw (old_line modif) old_l new_lines of
        Inl e \<Rightarrow> Inl e
      | Inr (old_l1, new_lines1) \<Rightarrow>
          if int (length new_lines1) \<noteq> new_line modif then Inl AssertFailed
          else case remove_until ltw (old_line modif + num_removed modif) old_l1 words of
            Inl e \<Rightarrow> Inl e
          | Inr (old_l2, words1) \<Rightarrow>
              (case add_from letter buf modif 0 new_lines1 words1 of
                 (new_lines2, words2) \<Rightarrow> update_modifs letter buf ltw modifs old_l2 new_lines2 words2))"

definition update_db :: "(Codepoint \<Rightarrow> bool) \<Rightarrow> Buffer \<Rightarrow> WordDB \<Rightarrow> error + WordDB" where
  "update_db letter buf db =
     (let modifs = changes_since buf (m_timestamp db);
          db1 = db\<lparr>m_timestamp := timestamp buf\<rparr>
      in if modifs = [] then Inr db1
         else case update_modifs letter buf (m_line_to_words db) modifs 0 [] (m_words db) of
           Inl e \<Rightarrow> Inl e
         | Inr (old_l, new_lines, words) \<Rightarrow>
             if old_l > int (length (m_line_to_words db)) then Inl OutOfRange
             else case copy_until (m_line_to_words db) (int (length (m_line_to_words db))) old_l new_lines of
               Inl e \<Rightarrow> Inl e
             | Inr (old_l', new_lines') \<Rightarrow> Inr (db1\<lparr>m_words := words, m_line_to_words := new_lines'\<rparr>))"

text \<open>
  Modelled from the spec: \<open>prefix_match\<close> and \<open>subsequence_match\<close> (string.cc is not part
  of the sources): \<open>subseq\<close> is a subsequence of \<open>str\<close>, in order, not necessarily
  contiguous.
\<close>

definition prefix_match :: "string \<Rightarrow> string \<Rightarrow> bool" where
  "prefix_match str pre = (take (length pre) str = pre)"

fun subsequence_match :: "string \<Rightarrow> string \<Rightarrow> bool" where
  "subsequence_match str [] = True"
| "subsequence_match [] (c # cs) = False"
| "subsequence_match (x # xs) (c # cs) =
     (if x = c then subsequence_match xs cs else subsequence_match xs (c # cs))"

text \<open>
  The queries. \<open>find_prefix\<close> and \<open>find_subsequence\<close> are not \<open>const\<close>: they return the
  database they leave behind with their answer. \<open>get_word_occurences\<close> is \<open>const\<close> and
  takes no buffer.
\<close>

definition find_prefix :: "(Codepoint \<Rightarrow> bool) \<Rightarrow> Buffer \<Rightarrow> WordDB \<Rightarrow> string \<Rightarrow> error + (WordDB \<times> string list)" where
  "find_prefix letter buf db pre =
     (case update_db letter buf db of
        Inl e \<Rightarrow> Inl e
      | Inr db' \<Rightarrow>
          Inr (db', takeWhile (\<lambda>k. prefix_match k pre)
                      (dropWhile (\<lambda>k. k < pre) (map fst (m_words db')))))"

definition find_subsequence :: "(Codepoint \<Rightarrow> bool) \<Rightarrow> Buffer \<Rightarrow> WordDB \<Rightarrow> string \<Rightarrow> error + (WordDB \<times> string list)" where
  "find_subsequence letter buf db subsequence =
     (case update_db letter buf db of
        Inl e \<Rightarrow> Inl e
      | Inr db' \<Rightarrow> Inr (db', filter (\<lambda>k. subsequence_match k subsequence) (map fst (m_words db'))))"

definition get_word_occurences :: "WordDB \<Rightarrow> string \<Rightarrow> int" where
  "get_word_occurences db word = (case map_of (m_words db) word of Some c \<Rightarrow> c | None \<Rightarrow> 0)"

text \<open>For the examples: no code point outside ASCII is a letter.\<close>

definition no_letter :: "Codepoint \<Rightarrow> bool" where
  "no_letter c = False"

text \<open>The two buffers of an edit: line 1 of three is rewritten.\<close>

definition words_buffer :: Buffer where
  "words_buffer =
     \<lparr>buf_lines = [''foo bar'' @ [CHR 0x0A], ''foobar foo'' @ [CHR 0x0A], ''baz'' @ [CHR 0x0A]],
      timestamp = 1, changes_since = (\<lambda>t. []), is_valid = (\<lambda>c. True)\<rparr>"

definition words_buffer_edited :: Buffer where
  "words_buffer_edited =
     \<lparr>buf_lines = [''foo bar'' @ [CHR 0x0A], ''qux'' @ [CHR 0x0A], ''baz'' @ [CHR 0x0A]],
      timestamp = 2,
      changes_since = (\<lambda>t. if t < 2 then [\<lparr>old_line = 1, new_line = 1, num_removed = 0, num_added = 0\<rparr>] else []),
      is_valid = (\<lambda>c. True)\<rparr>"


text \<open>
  The multiset a word list stands for, and the invariant of the database: the keys of
  the map are in strictly increasing order, every stored count is positive, and the
  multiset of the map is the union of the words of the lines.
\<close>

fun wl_mset :: "WordList \<Rightarrow> string multiset" where
  "wl_mset [] = {#}"
| "wl_mset ((k, c) # r) = replicate_mset (nat c) k + wl_mset r"

definition db_invariant :: "WordDB \<Rightarrow> bool" where
  "db_invariant db =
     (sorted_wrt (<) (map fst (m_words db)) \<and> (\<forall>c\<in>set (map snd (m_words db)). 0 < c) \<and>
      wl_mset (m_words db) = mset (concat (m_line_to_words db)))"

text \<open>The two conditions of the invariant on the map alone.\<close>

definition wl_ok :: "WordList \<Rightarrow> bool" where
  "wl_ok wl = (sorted_wrt (<) (map fst wl) \<and> (\<forall>c\<in>set (map snd wl). 0 < c))"

text \<open>The state of the loop of \<open>update_db\<close>: what is in the map is what has been written to
  the new lines plus what is left to read of the old ones.\<close>

definition loop_inv :: "LineToWords \<Rightarrow> int \<Rightarrow> LineToWords \<Rightarrow> WordList \<Rightarrow> bool" where
  "loop_inv ltw old_l new_lines words =
     (0 \<le> old_l \<and> wl_ok words \<and>
      wl_mset words = mset (concat new_lines) + mset (concat (drop (nat old_l) ltw)))"

text \<open>The database after the edit.\<close>

definition words_db_edited :: WordDB where
  "words_db_edited =
     \<lparr>m_timestamp = 2,
      m_words = [(''bar'', 1), (''baz'', 1), (''foo'', 1), (''qux'', 1)],
      m_line_to_words = [[''foo'', ''bar''], [''qux''], [''baz'']]\<rparr>"

section \<open>Regex matches\<close>

text \<open>
  \<open>RegexMatch\<close>: the fields \<open>timestamp\<close>, \<open>line\<close>, \<open>begin\<close> and \<open>end\<close> of the source
  carry the prefix \<open>match_\<close> here.
\<close>

record RegexMatch =
  match_timestamp :: nat
  match_line :: int
  match_begin :: int
  match_end :: int

definition begin_coord :: "RegexMatch \<Rightarrow> ByteCoord" where
  "begin_coord m = (match_line m, match_begin m)"

definition end_coord :: "RegexMatch \<Rightarrow> ByteCoord" where
  "end_coord m = (match_line m, match_end m)"

type_synonym RegexMatchList = "RegexMatch list"

text \<open>
  \<open>std::lower_bound(first, last, value, comp)\<close> on a range partitioned by
  \<open>comp(\<cdot>, value)\<close>: the position of the first element from \<open>first\<close> on for which the
  comparison is false, \<open>last\<close> if there is none. Iterators are indices;
  \<open>cmp\<close> is \<open>comp(\<cdot>, value)\<close>.
\<close>

definition lower_bound :: "nat \<Rightarrow> 'a list \<Rightarrow> ('a \<Rightarrow> bool) \<Rightarrow> nat" where
  "lower_bound first xs cmp = first + length (takeWhile cmp (drop first xs))"

section \<open>Regions\<close>

record RegionMatches =
  begin_matches :: RegexMatchList
  end_matches :: RegexMatchList
  recurse_matches :: RegexMatchList

definition compare_to_begin :: "RegexMatch \<Rightarrow> ByteCoord \<Rightarrow> bool" where
  "compare_to_begin lhs rhs = (begin_coord lhs < rhs)"

text \<open>\<open>RegionMatches::find_next_begin\<close>.\<close>

definition find_next_begin_in :: "RegionMatches \<Rightarrow> ByteCoord \<Rightarrow> nat" where
  "find_next_begin_in m pos = lower_bound 0 (begin_matches m) (\<lambda>x. compare_to_begin x pos)"

text \<open>
  \<open>RegionMatches::find_matching_end\<close>: the state of its \<open>while (true)\<close> loop is
  \<open>end_it\<close>, \<open>rec_it\<close>, \<open>recurse_level\<close> and \<open>beg_pos\<close>. \<open>recurse_level\<close> starts at 0
  and is decremented only when it is not 0: it is a natural number. The inner loop
  advances \<open>rec_it\<close> over the recurse matches that end before the candidate end begins and
  counts them.
\<close>

definition count_recurse :: "RegionMatches \<Rightarrow> nat \<Rightarrow> nat \<Rightarrow> nat" where
  "count_recurse m end_it rec_it =
     length (takeWhile (\<lambda>r. end_coord r < begin_coord (end_matches m ! end_it))
               (drop rec_it (recurse_matches m)))"

function find_matching_end_loop :: "RegionMatches \<Rightarrow> nat \<Rightarrow> nat \<Rightarrow> nat \<Rightarrow> ByteCoord \<Rightarrow> nat" where
  "find_matching_end_loop m end_it rec_it recurse_level beg_pos =
     (let end_it1 = lower_bound end_it (end_matches m) (\<lambda>x. compare_to_begin x beg_pos);
          rec_it1 = lower_bound rec_it (recurse_matches m) (\<lambda>x. compare_to_begin x beg_pos)
      in if end_it1 = length (end_matches m) then end_it1
         else
           let n = count_recurse m end_it1 rec_it1
           in if recurse_level + n = 0 then end_it1
              else find_matching_end_loop m end_it1 (rec_it1 + n) (recurse_level + n - 1)
                     (end_coord (end_matches m ! end_it1)))"
  by pat_completeness auto
termination
proof (relation "measure (\<lambda>(m, end_it, rec_it, recurse_level, beg_pos).
                    recurse_level + (length (recurse_matches m) - rec_it))", goal_cases)
  case 1
  show ?case by simp
next
  case (2 m end_it rec_it recurse_level beg_pos end_it1 rec_it1 n)
  have a: "rec_it \<le> rec_it1" using 2(2) by (simp add: lower_bound_def)
  have "n \<le> length (drop rec_it1 (recurse_matches m))"
    unfolding 2(4) count_recurse_def by (rule length_takeWhile_le)
  then have b: "n \<le> length (recurse_matches m) - rec_it1" by simp
  show ?case using a b 2(5) by (simp, arith)
qed

declare find_matching_end_loop.simps [simp del]

definition find_matching_end :: "RegionMatches \<Rightarrow> ByteCoord \<Rightarrow> nat" where
  "find_matching_end m beg_pos = find_matching_end_loop m 0 0 0 beg_pos"

text \<open>
  The same loop with two ghost lists: the positions of the recurse matches the inner loop
  has counted (\<open>++recurse_level\<close>) and the positions of the end matches it has consumed
  (\<open>--recurse_level\<close>, the search resuming from the end of that end match).
\<close>

function find_matching_end_trace ::
  "RegionMatches \<Rightarrow> nat \<Rightarrow> nat \<Rightarrow> nat \<Rightarrow> ByteCoord \<Rightarrow> nat list \<Rightarrow> nat list \<Rightarrow> nat \<times> nat list \<times> nat list" where
  "find_matching_end_trace m end_it rec_it recurse_level beg_pos counted consumed =
     (let end_it1 = lower_bound end_it (end_matches m) (\<lambda>x. compare_to_begin x beg_pos);
          rec_it1 = lower_bound rec_it (recurse_matches m) (\<lambda>x. compare_to_begin x beg_pos)
      in if end_it1 = length (end_matches m) then (end_it1, counted, consumed)
         else
           let n = count_recurse m end_it1 rec_it1
           in if recurse_level + n = 0 then (end_it1, counted @ [rec_it1..<rec_it1 + n], consumed)
              else find_matching_end_trace m end_it1 (rec_it1 + n) (recurse_level + n - 1)
                     (end_coord (end_matches m ! end_it1))
                     (counted @ [rec_it1..<rec_it1 + n]) (consumed @ [end_it1]))"
  by pat_completeness auto
termination
proof (relation "measure (\<lambda>(m, end_it, rec_it, recurse_level, beg_pos, counted, consumed).
                    recurse_level + (length (recurse_matches m) - rec_it))", goal_cases)
  case 1
  show ?case by simp
next
  case (2 m end_it rec_it recurse_level beg_pos counted consumed end_it1 rec_it1 n)
  have a: "rec_it \<le> rec_it1" using 2(2) by (simp add: lower_bound_def)
  have "n \<le> length (drop rec_it1 (recurse_matches m))"
    unfolding 2(4) count_recurse_def by (rule length_takeWhile_le)
  then have b: "n \<le> length (recurse_matches m) - rec_it1" by simp
  show ?case using a b 2(5) by (simp, arith)
qed

declare find_matching_end_trace.simps [simp del]

text \<open>
  What the loop does, said without the loop. \<open>first_from\<close> is the position of the first
  match that begins at or after a coordinate. \<open>gap_recurse m lo hi\<close> are the positions
  of the recurse matches that begin at or after \<open>lo\<close> and end before \<open>hi\<close>. For the
  candidate ends the search stops at in turn, \<open>resume\<close> gives the coordinate the search
  resumed from before each (the start coordinate, then the end of the previous
  candidate), and \<open>counted_for\<close> the recurse matches between that coordinate and the
  begin of the candidate.
\<close>

definition first_from :: "RegexMatchList \<Rightarrow> ByteCoord \<Rightarrow> nat" where
  "first_from xs pos = length (takeWhile (\<lambda>x. begin_coord x < pos) xs)"

definition gap_recurse :: "RegionMatches \<Rightarrow> ByteCoord \<Rightarrow> ByteCoord \<Rightarrow> nat list" where
  "gap_recurse m lo hi =
     filter (\<lambda>r. lo \<le> begin_coord (recurse_matches m ! r) \<and> end_coord (recurse_matches m ! r) < hi)
       [0..<length (recurse_matches m)]"

fun resume :: "RegionMatches \<Rightarrow> ByteCoord \<Rightarrow> nat list \<Rightarrow> ByteCoord list" where
  "resume m b [] = []"
| "resume m b (c # cs) = b # resume m (end_coord (end_matches m ! c)) cs"

definition counted_for :: "RegionMatches \<Rightarrow> ByteCoord \<Rightarrow> nat list \<Rightarrow> nat list list" where
  "counted_for m b cands =
     map2 (\<lambda>pos c. gap_recurse m pos (begin_coord (end_matches m ! c))) (resume m b cands) cands"

text \<open>
  The recurse matches in \<open>[b, e)\<close> as the specification counts them: those that lie
  between the start coordinate and the begin of the end match \<open>e\<close>.
\<close>

definition recurse_in :: "RegionMatches \<Rightarrow> ByteCoord \<Rightarrow> RegexMatch \<Rightarrow> RegexMatchList" where
  "recurse_in m b e =
     filter (\<lambda>r. b \<le> begin_coord r \<and> end_coord r \<le> begin_coord e) (recurse_matches m)"

text \<open>
  The matches of a region from \<open>if\<close> to \<open>endif\<close> that recurses on \<open>if\<close>, on the
  line \<open>if a if b endif c endif\<close>: the recurse pattern also matches inside \<open>endif\<close>.
\<close>

definition match_at :: "int \<Rightarrow> int \<Rightarrow> RegexMatch" where
  "match_at b e = \<lparr>match_timestamp = 1, match_line = 0, match_begin = b, match_end = e\<rparr>"

definition if_matches :: RegionMatches where
  "if_matches =
     \<lparr>begin_matches = [match_at 0 2, match_at 5 7, match_at 13 15, match_at 21 23],
      end_matches = [match_at 10 15, match_at 18 23],
      recurse_matches = [match_at 0 2, match_at 5 7, match_at 13 15, match_at 21 23]\<rparr>"



text \<open>
  \<open>RegionsHighlighter::find_next_begin\<close>: a \<open>RegionAndMatch\<close> is the index of a region
  and a position in its begin matches.
\<close>

type_synonym RegionAndMatch = "nat \<times> nat"

definition find_next_begin :: "RegionMatches list \<Rightarrow> ByteCoord \<Rightarrow> RegionAndMatch" where
  "find_next_begin cache_matches pos =
     fold (\<lambda>i res.
             let matches = cache_matches ! i;
                 it = find_next_begin_in matches pos
             in if it \<noteq> length (begin_matches matches) \<and>
                   (snd res = length (begin_matches (cache_matches ! fst res)) \<or>
                    begin_coord (begin_matches matches ! it) <
                      begin_coord (begin_matches (cache_matches ! fst res) ! snd res))
                then (i, it) else res)
          [1..<length cache_matches]
          (0, find_next_begin_in (cache_matches ! 0) pos)"

text \<open>
  The fields \<open>begin\<close> and \<open>end\<close> of a \<open>Region\<close> carry the prefix \<open>region_\<close>.
\<close>

record Region =
  region_begin :: ByteCoord
  region_end :: ByteCoord
  group :: string

text \<open>
  The resolution loop of \<open>RegionsHighlighter::update_cache_ifn\<close>, from
  \<open>cache.regions.clear()\<close> on: \<open>beg\<close> is the loop variable \<open>begin\<close>, \<open>names\<close> the names
  of \<open>m_regions\<close>, \<open>buffer_end\<close> is \<open>buffer.end_coord()\<close>. The loop may not return: then
  the value is \<open>None\<close>. A failed \<open>kak_assert\<close> is the error \<open>AssertFailed\<close>.
\<close>

partial_function (option) resolve_regions ::
  "RegionMatches list \<Rightarrow> string list \<Rightarrow> ByteCoord \<Rightarrow> RegionAndMatch \<Rightarrow> Region list
     \<Rightarrow> (error + Region list) option" where
  "resolve_regions cache_matches names buffer_end beg regions =
     (if beg = (0, length (begin_matches (cache_matches ! 0))) then Some (Inr regions)
      else
        let matches = cache_matches ! fst beg;
            beg_it = begin_matches matches ! snd beg;
            end_it = find_matching_end matches (end_coord beg_it)
        in if end_it = length (end_matches matches)
           then Some (Inr (regions @
                  [\<lparr>region_begin = (match_line beg_it, match_begin beg_it),
                    region_end = buffer_end, group = names ! fst beg\<rparr>]))
           else
             let end_m = end_matches matches ! end_it;
                 regions' = regions @
                   [\<lparr>region_begin = begin_coord beg_it, region_end = end_coord end_m,
                     group = names ! fst beg\<rparr>]
             in if end_coord end_m = begin_coord beg_it
                then (if \<not> (begin_coord beg_it = end_coord beg_it \<and> begin_coord end_m = end_coord end_m)
                      then Some (Inl AssertFailed)
                      else resolve_regions cache_matches names buffer_end
                             (find_next_begin cache_matches
                                (line (end_coord end_m), column (end_coord end_m) + 1))
                             regions')
                else resolve_regions cache_matches names buffer_end
                       (find_next_begin cache_matches (end_coord end_m)) regions')"

declare resolve_regions.simps [code]

text \<open>What every regex match satisfies: it does not end before it begins.\<close>

definition matches_wf :: "RegionMatches list \<Rightarrow> bool" where
  "matches_wf cache_matches =
     (\<forall>rm\<in>set cache_matches.
        (\<forall>x\<in>set (begin_matches rm). match_begin x \<le> match_end x) \<and>
        (\<forall>x\<in>set (end_matches rm). match_begin x \<le> match_end x))"

text \<open>
  The matches of a region whose begin and end patterns match the empty string only, after
  each quote and before each quote of a line made of two quotes.
\<close>

definition empty_matches :: RegionMatches where
  "empty_matches =
     \<lparr>begin_matches = [\<lparr>match_timestamp = 1, match_line = 0, match_begin = 1, match_end = 1\<rparr>,
                       \<lparr>match_timestamp = 1, match_line = 0, match_begin = 2, match_end = 2\<rparr>],
      end_matches = [\<lparr>match_timestamp = 1, match_line = 0, match_begin = 0, match_end = 0\<rparr>,
                     \<lparr>match_timestamp = 1, match_line = 0, match_begin = 1, match_end = 1\<rparr>],
      recurse_matches = []\<rparr>"


section \<open>Construction of a regions highlighter\<close>

text \<open>
  A compiled regex is the function that gives, for a line, the matches the regex iterator
  yields on it, each as (begin, end) in bytes from the start of the line. A \<open>Regex\<close>
  may be empty (default-constructed): \<open>None\<close>.
\<close>

type_synonym Matcher = "string \<Rightarrow> (int \<times> int) list"
type_synonym Regex = "Matcher option"

text \<open>
  The regexes \<open>m_begin\<close>, \<open>m_end\<close> and \<open>m_recurse\<close> of a \<open>RegionDesc\<close> are the
  fields \<open>re_begin\<close>, \<open>re_end\<close> and \<open>re_recurse\<close>.
\<close>

record RegionDesc =
  re_begin :: Regex
  re_end :: Regex
  re_recurse :: Regex

type_synonym NamedRegionDescList = "(string \<times> RegionDesc) list"

record RegionsHighlighter =
  m_regions :: NamedRegionDescList
  m_default_group :: string

text \<open>The constructor \<open>RegionsHighlighter::RegionsHighlighter\<close>.\<close>

definition new_RegionsHighlighter :: "NamedRegionDescList \<Rightarrow> string \<Rightarrow> error + RegionsHighlighter" where
  "new_RegionsHighlighter regions default_group =
     (if regions = [] then Inl (runtime_error ''at least one region must be defined'')
      else if \<exists>region\<in>set regions. re_begin (snd region) = None \<or> re_end (snd region) = None
      then Inl (runtime_error ''invalid regex for region highlighter'')
      else Inr \<lparr>m_regions = regions, m_default_group = default_group\<rparr>)"

text \<open>
  \<open>regions_factory\<close>, after the \<open>ParametersParser\<close> (outside the sources) has split the
  parameters: \<open>positional\<close> are the positional parameters and \<open>default_opt\<close> the value of
  the switch \<open>-default\<close> if given. \<open>compile\<close> builds a regex from a pattern and gives
  \<open>None\<close> where \<open>boost::regex_error\<close> is thrown. The loop
  \<open>for (i = 1; i < positional_count; i += 4)\<close> reads the parameters four by four.
\<close>

fun parse_regions :: "(string \<Rightarrow> Matcher option) \<Rightarrow> string list \<Rightarrow> error + NamedRegionDescList" where
  "parse_regions compile (name # b # e # r # rest) =
     (if name = [] \<or> b = [] \<or> e = []
      then Inl (runtime_error ''group id, begin and end must not be empty'')
      else case compile b of
        None \<Rightarrow> Inl (runtime_error ''regex error'')
      | Some bm \<Rightarrow>
         (case compile e of
            None \<Rightarrow> Inl (runtime_error ''regex error'')
          | Some em \<Rightarrow>
             (case (if r \<noteq> [] then map_option Some (compile r) else Some None) of
                None \<Rightarrow> Inl (runtime_error ''regex error'')
              | Some recurse \<Rightarrow>
                 (case parse_regions compile rest of
                    Inl err \<Rightarrow> Inl err
                  | Inr regions \<Rightarrow>
                      Inr ((name, \<lparr>re_begin = Some bm, re_end = Some em, re_recurse = recurse\<rparr>) # regions)))))"
| "parse_regions compile rest = Inr []"

definition regions_factory ::
  "(string \<Rightarrow> Matcher option) \<Rightarrow> string list \<Rightarrow> string option
     \<Rightarrow> error + (string \<times> RegionsHighlighter \<times> string list)" where
  "regions_factory compile positional default_opt =
     (if length positional mod 4 \<noteq> 1
      then Inl (runtime_error ''wrong parameter count, expect <id> (<group name> <begin> <end> <recurse>)+'')
      else case parse_regions compile (tl positional) of
        Inl err \<Rightarrow> Inl err
      | Inr regions \<Rightarrow>
         (let default_group = (case default_opt of Some d \<Rightarrow> d | None \<Rightarrow> []);
              groups = map fst regions @ (case default_opt of Some d \<Rightarrow> [d] | None \<Rightarrow> [])
          in case new_RegionsHighlighter regions default_group of
               Inl err \<Rightarrow> Inl err
             | Inr h \<Rightarrow> Inr (hd positional, h, groups)))"

text \<open>The parameters of the regions, four by four.\<close>

fun quads :: "string list \<Rightarrow> (string \<times> string \<times> string \<times> string) list" where
  "quads (name # b # e # r # rest) = (name, b, e, r) # quads rest"
| "quads rest = []"

text \<open>
  When the specification has the construction fail: no region is defined, or the begin or
  the end pattern of some region is the empty string.
\<close>

definition spec_rejects :: "string list \<Rightarrow> bool" where
  "spec_rejects positional =
     (quads (tl positional) = [] \<or>
      (\<exists>(name, b, e, r)\<in>set (quads (tl positional)). b = [] \<or> e = []))"

text \<open>A \<open>compile\<close> that takes every pattern; its regexes match nothing.\<close>

definition compile_all :: "string \<Rightarrow> Matcher option" where
  "compile_all pattern = Some (\<lambda>l. [])"

text \<open>A position in the begin matches: the end of the first list, or a match in some list.\<close>

definition at_match :: "RegionMatches list \<Rightarrow> RegionAndMatch \<Rightarrow> bool" where
  "at_match cache_matches beg =
     (fst beg < length cache_matches \<and> snd beg < length (begin_matches (cache_matches ! fst beg)))"

text \<open>The begin matches still ahead of a position: what the loop runs out of.\<close>

definition ahead :: "RegionMatches list \<Rightarrow> RegionAndMatch \<Rightarrow> nat" where
  "ahead cache_matches beg =
     (if at_match cache_matches beg
      then length (filter (\<lambda>x. begin_coord (begin_matches (cache_matches ! fst beg) ! snd beg) \<le> begin_coord x)
                     (concat (map begin_matches cache_matches)))
      else 0)"

section \<open>Incremental update of the matches\<close>

text \<open>
  The matches of one line of the buffer: \<open>(*it)[0].first - l.begin()\<close> and
  \<open>(*it)[0].second - l.begin()\<close> for each match the regex iterator yields on it.
\<close>

definition line_matches :: "Buffer \<Rightarrow> Matcher \<Rightarrow> int \<Rightarrow> RegexMatchList" where
  "line_matches buf regex l =
     map (\<lambda>(b, e). \<lparr>match_timestamp = timestamp buf, match_line = l, match_begin = b, match_end = e\<rparr>)
         (regex (buf_line buf l))"

text \<open>\<open>find_matches\<close>: the loop over the lines, from \<open>l\<close> to \<open>end_line\<close>.\<close>

function find_matches_loop :: "Buffer \<Rightarrow> Matcher \<Rightarrow> int \<Rightarrow> int \<Rightarrow> RegexMatchList \<Rightarrow> RegexMatchList" where
  "find_matches_loop buf regex l end_line matches =
     (if l < end_line
      then find_matches_loop buf regex (l + 1) end_line (matches @ line_matches buf regex l)
      else matches)"
  by pat_completeness auto
termination
  by (relation "measure (\<lambda>(buf, regex, l, end_line, matches). nat (end_line - l))") auto

declare find_matches_loop.simps [simp del]

definition find_matches :: "Buffer \<Rightarrow> RegexMatchList \<Rightarrow> Matcher \<Rightarrow> RegexMatchList" where
  "find_matches buf matches regex = find_matches_loop buf regex 0 (line_count buf) matches"

text \<open>
  Modelled from the spec: \<open>LineModification::diff\<close> (line_modification.hh is not part of
  the sources): \<open>new_line\<close> is \<open>old_line\<close> plus the sum of the prior diffs, so the lines
  that follow a modification have moved by the cumulative diff up to it.
\<close>

definition diff :: "LineModification \<Rightarrow> int" where
  "diff m = new_line m - old_line m + num_added m - num_removed m"

text \<open>
  \<open>update_matches\<close>, first loop, for one match: \<open>None\<close> when the match is erased. The
  two \<open>kak_assert\<close> on the match that is kept read \<open>Buffer::is_valid\<close>.
\<close>

definition update_match :: "Buffer \<Rightarrow> LineModification list \<Rightarrow> RegexMatch \<Rightarrow> error + RegexMatch option" where
  "update_match buf modifs it =
     (let modif_it = lower_bound 0 modifs (\<lambda>c. old_line c < match_line it);
          erase = (modif_it \<noteq> length modifs \<and> old_line (modifs ! modif_it) = match_line it);
          shifted = (\<not> erase \<and> modif_it \<noteq> 0);
          erase1 = (if shifted
                    then match_line it \<le> old_line (modifs ! (modif_it - 1)) + num_removed (modifs ! (modif_it - 1))
                    else erase);
          it1 = (if shifted then it\<lparr>match_line := match_line it + diff (modifs ! (modif_it - 1))\<rparr> else it);
          erase2 = (erase1 \<or> match_line it1 \<ge> line_count buf)
      in if \<not> erase2
         then (let it2 = it1\<lparr>match_timestamp := timestamp buf\<rparr>
               in if \<not> (is_valid buf (begin_coord it2) \<or>
                          int (length (buf_line buf (match_line it2))) = match_begin it2)
                  then Inl AssertFailed
                  else if \<not> (is_valid buf (end_coord it2) \<or>
                          int (length (buf_line buf (match_line it2))) = match_end it2)
                  then Inl AssertFailed
                  else Inr (Some it2))
         else Inr None)"

fun update_old :: "Buffer \<Rightarrow> LineModification list \<Rightarrow> RegexMatchList \<Rightarrow> error + RegexMatchList" where
  "update_old buf modifs [] = Inr []"
| "update_old buf modifs (it # matches) =
     (case update_match buf modifs it of
        Inl err \<Rightarrow> Inl err
      | Inr kept \<Rightarrow>
          (case update_old buf modifs matches of
             Inl err \<Rightarrow> Inl err
           | Inr rest \<Rightarrow> Inr (case kept of None \<Rightarrow> rest | Some it' \<Rightarrow> it' # rest)))"

text \<open>
  Second loop: the lines of one modification, from \<open>l\<close>, then all the modifications. A
  read of a line before the first is the error \<open>OutOfRange\<close>.
\<close>

function rescan_lines :: "Buffer \<Rightarrow> Matcher \<Rightarrow> LineModification \<Rightarrow> int \<Rightarrow> RegexMatchList \<Rightarrow> error + RegexMatchList" where
  "rescan_lines buf regex modif l matches =
     (if l < new_line modif + num_added modif + 1 \<and> l < line_count buf
      then (if l < 0 then Inl OutOfRange
            else rescan_lines buf regex modif (l + 1) (matches @ line_matches buf regex l))
      else Inr matches)"
  by pat_completeness auto
termination
  by (relation "measure (\<lambda>(buf, regex, modif, l, matches). nat (line_count buf - l))") auto

declare rescan_lines.simps [simp del]

fun rescan_modifs :: "Buffer \<Rightarrow> Matcher \<Rightarrow> LineModification list \<Rightarrow> RegexMatchList \<Rightarrow> error + RegexMatchList" where
  "rescan_modifs buf regex [] matches = Inr matches"
| "rescan_modifs buf regex (modif # modifs) matches =
     (case rescan_lines buf regex modif (new_line modif) matches of
        Inl err \<Rightarrow> Inl err
      | Inr matches' \<Rightarrow> rescan_modifs buf regex modifs matches')"

text \<open>
  \<open>std::inplace_merge\<close> of the two parts of the vector by \<open>begin_coord\<close>: of two
  equivalent matches the one of the first part comes first.
\<close>

fun inplace_merge :: "RegexMatchList \<Rightarrow> RegexMatchList \<Rightarrow> RegexMatchList" where
  "inplace_merge [] ys = ys"
| "inplace_merge xs [] = xs"
| "inplace_merge (x # xs) (y # ys) =
     (if begin_coord y < begin_coord x then y # inplace_merge (x # xs) ys
      else x # inplace_merge xs (y # ys))"

definition update_matches ::
  "Buffer \<Rightarrow> LineModification list \<Rightarrow> RegexMatchList \<Rightarrow> Matcher \<Rightarrow> error + RegexMatchList" where
  "update_matches buf modifs matches regex =
     (case update_old buf modifs matches of
        Inl err \<Rightarrow> Inl err
      | Inr kept \<Rightarrow>
          (case rescan_modifs buf regex modifs kept of
             Inl err \<Rightarrow> Inl err
           | Inr all_matches \<Rightarrow>
               Inr (inplace_merge (take (length kept) all_matches) (drop (length kept) all_matches))))"

text \<open>
  What the line modifications between two states of the buffer say, read along the list
  from the lines \<open>op\<close> of the old and \<open>np\<close> of the new state: the lines before a
  modification are unchanged; the modification replaces the old lines \<open>old_line\<close> to
  \<open>old_line + num_removed\<close>, which exist, by the new lines \<open>new_line\<close> to
  \<open>new_line + num_added\<close>, the first of which exists; after the last modification the
  lines are unchanged.
\<close>

fun modifs_between :: "string list \<Rightarrow> string list \<Rightarrow> int \<Rightarrow> int \<Rightarrow> LineModification list \<Rightarrow> bool" where
  "modifs_between old new op np [] =
     (0 \<le> op \<and> 0 \<le> np \<and> drop (nat op) old = drop (nat np) new)"
| "modifs_between old new op np (m # ms) =
     (0 \<le> op \<and> 0 \<le> np \<and> op \<le> old_line m \<and> new_line m = np + (old_line m - op) \<and>
      0 \<le> num_removed m \<and> 0 \<le> num_added m \<and>
      old_line m + num_removed m < int (length old) \<and> new_line m < int (length new) \<and>
      take (nat (old_line m - op)) (drop (nat op) old) = take (nat (old_line m - op)) (drop (nat np) new) \<and>
      modifs_between old new (old_line m + num_removed m + 1) (new_line m + num_added m + 1) ms)"

text \<open>What the matches of a regex satisfy: they lie in the line, begin before end.\<close>

definition matcher_wf :: "Matcher \<Rightarrow> bool" where
  "matcher_wf regex = (\<forall>l. \<forall>(b, e)\<in>set (regex l). 0 \<le> b \<and> b \<le> e \<and> e \<le> int (length l))"

text \<open>\<open>is_valid\<close> holds of the coordinates of the bytes of the buffer.\<close>

definition bytes_valid :: "Buffer \<Rightarrow> bool" where
  "bytes_valid buf =
     (\<forall>l c. 0 \<le> l \<and> l < line_count buf \<and> 0 \<le> c \<and> c < int (length (buf_line buf l))
        \<longrightarrow> is_valid buf (l, c))"

text \<open>
  A regex that matches every \<open>x\<close>, and the two states of a buffer of ten lines in which
  the lines 4 to 6 are replaced by four lines.
\<close>

fun x_positions :: "int \<Rightarrow> string \<Rightarrow> (int \<times> int) list" where
  "x_positions i [] = []"
| "x_positions i (c # cs) = (if c = CHR ''x'' then [(i, i + 1)] else []) @ x_positions (i + 1) cs"

definition match_x :: Matcher where
  "match_x l = x_positions 0 l"

definition lines_before :: "string list" where
  "lines_before = [''a'', ''b'', ''x'', ''c'', ''d'', ''ax'', ''e'', ''f'', ''g'', ''xx'']"

definition lines_after :: "string list" where
  "lines_after = [''a'', ''b'', ''x'', ''c'', ''n'', ''o'', ''px'', ''q'', ''f'', ''g'', ''xx'']"

definition old_state :: Buffer where
  "old_state = \<lparr>buf_lines = lines_before, timestamp = 1, changes_since = (\<lambda>t. []), is_valid = on_bytes lines_before\<rparr>"

definition edit :: "LineModification list" where
  "edit = [\<lparr>old_line = 4, new_line = 4, num_removed = 2, num_added = 3\<rparr>]"

definition new_state :: Buffer where
  "new_state = \<lparr>buf_lines = lines_after, timestamp = 2,
                 changes_since = (\<lambda>t. if t < 2 then edit else []), is_valid = on_bytes lines_after\<rparr>"

text \<open>Where the walk along the modifications stands: after the modifications \<open>done\<close>.\<close>

definition walk_inv :: "LineModification list \<Rightarrow> int \<Rightarrow> int \<Rightarrow> bool" where
  "walk_inv done op np =
     ((\<forall>d\<in>set done. old_line d < op) \<and>
      (done \<noteq> [] \<longrightarrow> old_line (last done) + num_removed (last done) < op) \<and>
      np - op = (if done = [] then 0 else diff (last done)))"

section \<open>Properties of the line numbers\<close>

lemma digit_count_pos: "0 < n \<Longrightarrow> 0 < digit_count n"
  by (subst digit_count.simps) simp

lemma digit_count_bounds: "0 < n \<Longrightarrow> 10 ^ (digit_count n - 1) \<le> n \<and> n < 10 ^ digit_count n"
proof (induction n rule: digit_count.induct)
  case (1 c)
  show ?case
  proof (cases "c < 10")
    case True
    then have "c div 10 = 0" using 1(2) by simp
    then have "digit_count c = 1" using 1(2) by (simp add: digit_count.simps[of c] digit_count.simps[of 0])
    then show ?thesis using True 1(2) by simp
  next
    case False
    then have pos: "0 < c div 10" using 1(2) by simp
    from 1(1)[OF 1(2) pos] have ih: "10 ^ (digit_count (c div 10) - 1) \<le> c div 10" "c div 10 < 10 ^ digit_count (c div 10)" by auto
    have dc: "digit_count c = Suc (digit_count (c div 10))" using 1(2) by (simp add: digit_count.simps[of c])
    have p: "0 < digit_count (c div 10)" using pos by (rule digit_count_pos)
    then obtain k where k: "digit_count (c div 10) = Suc k" by (cases "digit_count (c div 10)") auto
    show ?thesis using ih dc k by auto
  qed
qed

lemma length_dec_digits: "0 < n \<Longrightarrow> length (dec_digits n) = digit_count (int n)"
proof (induction n rule: dec_digits.induct)
  case (1 n)
  show ?case
  proof (cases "n < 10")
    case True
    then have "int n div 10 = 0" by simp
    then show ?thesis using True 1(2) by (simp add: dec_digits.simps[of n] digit_count.simps[of "int n"] digit_count.simps[of 0])
  next
    case False
    then have "0 < n div 10" by simp
    from 1(1)[OF False this] have "length (dec_digits (n div 10)) = digit_count (int (n div 10))" .
    moreover have "int (n div 10) = int n div 10" by simp
    ultimately show ?thesis using False 1(2) by (simp add: dec_digits.simps[of n] digit_count.simps[of "int n"] )
  qed
qed

lemma digit_count_mono: "a \<le> b \<Longrightarrow> digit_count a \<le> digit_count b"
proof (induction b arbitrary: a rule: digit_count.induct)
  case (1 c)
  show ?case
  proof (cases "a > 0")
    case True
    then have c: "c > 0" using 1(2) by simp
    have "a div 10 \<le> c div 10" using 1(2) by (simp add: zdiv_mono1)
    from 1(1)[OF c this] show ?thesis using True c by (simp add: digit_count.simps[of a] digit_count.simps[of c])
  next
    case False
    then show ?thesis by (simp add: digit_count.simps[of a])
  qed
qed

lemma each_line_map:
  assumes "\<forall>l\<in>set ls. body l = Inr (g l)"
  shows "each_line body ls = Inr (map g ls)"
  using assms by (induction ls) auto

lemma digit_count_le_6:
  assumes "0 < n" "n < 1000000"
  shows "digit_count n \<le> 6"
proof (rule ccontr)
  assume "\<not> digit_count n \<le> 6"
  then have "7 \<le> digit_count n" by simp
  then have "6 \<le> digit_count n - 1" by simp
  then have "(10::int) ^ 6 \<le> 10 ^ (digit_count n - 1)"
    by (intro power_increasing) auto
  also have "\<dots> \<le> n" using digit_count_bounds[OF assms(1)] by simp
  finally show False using assms(2) by simp
qed

lemma number_line_ok:
  assumes lc: "0 < lc" "lc < 1000000"
    and l: "0 \<le> line (fst (m_range l))" "line (fst (m_range l)) < lc"
  shows "number_line (digit_count lc) f l =
           Inr (line_insert 0 (text_atom (pad_left (digit_count lc) (show_int (line (fst (m_range l)) + 1)) @ bar) f) l)"
    and "length (pad_left (digit_count lc) (show_int (line (fst (m_range l)) + 1))) = digit_count lc"
proof -
  let ?n = "line (fst (m_range l)) + 1"
  have n: "0 < ?n" "?n \<le> lc" using l by auto
  have si: "show_int ?n = dec_digits (nat ?n)" using n by (simp add: show_int_def)
  have "length (show_int ?n) = digit_count (int (nat ?n))"
    unfolding si using n by (intro length_dec_digits) simp
  then have len: "length (show_int ?n) = digit_count ?n" using n by simp
  have le: "digit_count ?n \<le> digit_count lc" using n by (intro digit_count_mono) simp
  have six: "digit_count lc \<le> 6" using lc by (rule digit_count_le_6)
  show w: "length (pad_left (digit_count lc) (show_int ?n)) = digit_count lc"
    using len le by (simp add: pad_left_def)
  have "length (pad_left (digit_count lc) (show_int ?n) @ bar) \<le> 9"
    using w six by (simp add: bar_def)
  then have "take 9 (pad_left (digit_count lc) (show_int ?n) @ bar) = pad_left (digit_count lc) (show_int ?n) @ bar"
    by simp
  then show "number_line (digit_count lc) f l =
           Inr (line_insert 0 (text_atom (pad_left (digit_count lc) (show_int ?n) @ bar) f) l)"
    using six n lc by (simp add: number_line_def snprintf_line_def INT_MAX_def)
qed

text \<open>
  C10 (as amended): for a buffer of fewer than a million lines, \<open>show_line_numbers\<close>
  prepends to every display line that starts in the buffer a text atom holding the line
  number, right-aligned and padded with spaces to N characters, then the bar, where N is
  the number of decimal digits of \<open>line_count\<close>: \<open>10^(N-1) \<le> line_count < 10^N\<close>.
\<close>

theorem show_line_numbers_width:
  assumes "0 < line_count (buffer context)" and "line_count (buffer context) < 1000000"
    and "\<forall>l\<in>set (lines display_buffer).
           0 \<le> line (fst (m_range l)) \<and> line (fst (m_range l)) < line_count (buffer context)"
  shows "10 ^ (digit_count (line_count (buffer context)) - 1) \<le> line_count (buffer context)
       \<and> line_count (buffer context) < 10 ^ digit_count (line_count (buffer context))
       \<and> show_line_numbers context flags display_buffer =
           Inr (display_buffer\<lparr>lines :=
                  map (\<lambda>l. line_insert 0
                             (text_atom (pad_left (digit_count (line_count (buffer context)))
                                           (show_int (line (fst (m_range l)) + 1)) @ bar)
                                (get_face context ''LineNumbers'')) l)
                      (lines display_buffer)\<rparr>)
       \<and> (\<forall>l\<in>set (lines display_buffer).
             length (pad_left (digit_count (line_count (buffer context)))
                       (show_int (line (fst (m_range l)) + 1))) =
             digit_count (line_count (buffer context)))"
proof -
  let ?lc = "line_count (buffer context)"
  have a: "10 ^ (digit_count ?lc - 1) \<le> ?lc \<and> ?lc < 10 ^ digit_count ?lc"
    using assms(1) by (rule digit_count_bounds)
  have b: "each_line (number_line (digit_count ?lc) (get_face context ''LineNumbers'')) (lines display_buffer) =
        Inr (map (\<lambda>l. line_insert 0
                             (text_atom (pad_left (digit_count ?lc)
                                           (show_int (line (fst (m_range l)) + 1)) @ bar)
                                (get_face context ''LineNumbers'')) l) (lines display_buffer))"
    using assms by (intro each_line_map ballI number_line_ok(1)) auto
  have c: "\<forall>l\<in>set (lines display_buffer).
             length (pad_left (digit_count ?lc) (show_int (line (fst (m_range l)) + 1))) = digit_count ?lc"
    using assms by (intro ballI number_line_ok(2)) auto
  show ?thesis using a b c by (simp add: show_line_numbers_def Let_def)
qed

theorem show_line_numbers_width_witness:
  "show_line_numbers (example_context 12) Highlight (viewport [0, 5, 11]) =
     Inr (viewport [0, 5, 11]
        \<lparr>lines := map (\<lambda>(l, s). whole_line l\<lparr>m_atoms := text_atom s default_face # m_atoms (whole_line l)\<rparr>)
            [(0, [CHR '' '', CHR ''1''] @ bar), (5, [CHR '' '', CHR ''6''] @ bar), (11, ''12'' @ bar)]\<rparr>)"
  using show_line_numbers_width [of "example_context 12" "viewport [0, 5, 11]" Highlight]
  by (simp add: example_context_def lines_buffer_def viewport_def whole_line_def line_count_def
      digit_count.simps pad_left_def show_int_def dec_digits.simps digit_char_def
      line_insert_def line_compute_range_def empty_range_def text_atom_def buffer_atom_def
      has_buffer_range_def INT_MAX_def INT_MIN_def)

theorem show_line_numbers_ceil_log_counterexample:
  "show_line_numbers (example_context 10) Highlight (viewport [0]) =
     Inr (viewport [0]\<lparr>lines := [line_insert 0 (text_atom ([CHR '' '', CHR ''1''] @ bar) default_face) (whole_line 0)]\<rparr>)
   \<and> pad_left (spec_width 10) (show_int 1) @ bar = ''1'' @ bar
   \<and> ''1'' @ bar \<noteq> [CHR '' '', CHR ''1''] @ bar"
  by (simp add: show_line_numbers_def example_context_def lines_buffer_def viewport_def line_count_def
      digit_count.simps number_line_def snprintf_line_def whole_line_def
      pad_left_def show_int_def dec_digits.simps digit_char_def INT_MAX_def spec_width_def bar_def)

section \<open>Properties of the range application\<close>

lemma highlight_atoms_visit:
  "i \<le> length atoms \<Longrightarrow>
   highlight_atoms beg endc skip func i atoms =
     take i atoms @ concat (map (visit_atom beg endc skip func) (drop i atoms))"
proof (induction "length atoms - i" arbitrary: i atoms rule: less_induct)
  case less
  show ?case
  proof (cases "i = length atoms")
    case True
    then show ?thesis by (simp add: highlight_atoms.simps)
  next
    case False
    then have lt: "i < length atoms" using less.prems by simp
    define pre where "pre = take i atoms"
    define a where "a = atoms ! i"
    define post where "post = drop (Suc i) atoms"
    have atoms: "atoms = pre @ a # post" and lp: "length pre = i"
      using lt by (auto simp: pre_def a_def post_def id_take_nth_drop)
    let ?V = "visit_atom beg endc skip func"
    have goal_eq: "take i atoms @ concat (map ?V (drop i atoms)) = pre @ ?V a @ concat (map ?V post)"
      using lp by (simp add: atoms)
    have step: "highlight_atoms beg endc skip func (i + length new) (pre @ new @ post)
              = pre @ new @ concat (map ?V post)" for new
    proof -
      have "length (pre @ new @ post) - (i + length new) < length atoms - i"
        using lt lp by (simp add: atoms)
      moreover have "i + length new \<le> length (pre @ new @ post)" using lp by simp
      ultimately have "highlight_atoms beg endc skip func (i + length new) (pre @ new @ post)
        = take (i + length new) (pre @ new @ post) @ concat (map ?V (drop (i + length new) (pre @ new @ post)))"
        by (rule less.hyps)
      then show ?thesis using lp by simp
    qed
    have nth: "atoms ! i = a" by (simp add: a_def)
    have sp: "split i pos atoms = pre @ [a\<lparr>m_end := pos\<rparr>, a\<lparr>m_begin := pos\<rparr>] @ post" for pos
      using split_append[of pre pos a post] lp by (simp add: atoms)
    consider (skip) "\<not> has_buffer_range a \<or> (skip \<and> m_type a = ReplacedBufferRange) \<or> endc \<le> m_begin a \<or> beg \<ge> m_end a"
      | (repl) "has_buffer_range a" "m_type a = ReplacedBufferRange" "\<not> skip" "m_begin a < endc" "beg < m_end a"
      | (buf) "m_type a = BufferRange" "m_begin a < endc" "beg < m_end a"
      by (cases "m_type a"; cases "endc \<le> m_begin a"; cases "m_end a \<le> beg")
         (auto simp: has_buffer_range_def not_le)
    then show ?thesis
    proof cases
      case skip
      then have v: "?V a = [a]" by (auto simp: visit_atom_def)
      have "highlight_atoms beg endc skip func i atoms = highlight_atoms beg endc skip func (Suc i) atoms"
        using skip lt nth by (subst highlight_atoms.simps) (auto simp: Let_def)
      also have "\<dots> = pre @ [a] @ concat (map ?V post)"
        using step[of "[a]"] by (simp add: atoms)
      finally show ?thesis unfolding goal_eq v by simp
    next
      case repl
      then have v: "?V a = [func a]" by (auto simp: visit_atom_def)
      have "highlight_atoms beg endc skip func i atoms =
            highlight_atoms beg endc skip func (Suc i) (atoms[i := func a])"
        using repl lt nth by (subst highlight_atoms.simps) (auto simp: Let_def)
      also have "atoms[i := func a] = pre @ [func a] @ post" using lp by (simp add: atoms list_update_append)
      also have "highlight_atoms beg endc skip func (Suc i) (pre @ [func a] @ post) = pre @ [func a] @ concat (map ?V post)"
        using step[of "[func a]"] by simp
      finally show ?thesis unfolding goal_eq v by simp
    next
      case buf
      then have hb: "has_buffer_range a" "m_type a \<noteq> ReplacedBufferRange" by (auto simp: has_buffer_range_def)
      show ?thesis
      proof (cases "m_begin a < beg")
        case True
        note left = True
        let ?l = "a\<lparr>m_end := beg\<rparr>" and ?r = "a\<lparr>m_begin := beg\<rparr>"
        have a1: "split i beg atoms = pre @ [?l, ?r] @ post" by (rule sp)
        have r_at: "split i beg atoms ! Suc i = ?r" using lp by (simp add: a1 nth_append)
        show ?thesis
        proof (cases "endc < m_end a")
          case True
          have v: "?V a = [?l, func (?r\<lparr>m_end := endc\<rparr>), ?r\<lparr>m_begin := endc\<rparr>]"
            using buf hb left True by (simp add: visit_atom_def Let_def)
          have s2: "split (Suc i) endc (split i beg atoms) = pre @ [?l, ?r\<lparr>m_end := endc\<rparr>, ?r\<lparr>m_begin := endc\<rparr>] @ post"
          proof -
            have "split (length (pre @ [?l])) endc ((pre @ [?l]) @ ?r # post)
                = (pre @ [?l]) @ [?r\<lparr>m_end := endc\<rparr>, ?r\<lparr>m_begin := endc\<rparr>] @ post"
              by (rule split_append)
            then show ?thesis using lp by (simp add: a1)
          qed
          have "highlight_atoms beg endc skip func i atoms =
                highlight_atoms beg endc skip func (Suc (Suc (Suc i)))
                  ((split (Suc i) endc (split i beg atoms))[Suc i := func (split (Suc i) endc (split i beg atoms) ! Suc i)])"
            using buf hb left True lt nth r_at by (subst highlight_atoms.simps) (auto simp: Let_def)
          also have "(split (Suc i) endc (split i beg atoms))[Suc i := func (split (Suc i) endc (split i beg atoms) ! Suc i)]
                 = pre @ [?l, func (?r\<lparr>m_end := endc\<rparr>), ?r\<lparr>m_begin := endc\<rparr>] @ post"
            using lp by (simp add: s2 nth_append list_update_append)
          also have "highlight_atoms beg endc skip func (Suc (Suc (Suc i))) \<dots> = pre @ [?l, func (?r\<lparr>m_end := endc\<rparr>), ?r\<lparr>m_begin := endc\<rparr>] @ concat (map ?V post)"
            using step[of "[?l, func (?r\<lparr>m_end := endc\<rparr>), ?r\<lparr>m_begin := endc\<rparr>]"] by simp
          finally show ?thesis unfolding goal_eq v by simp
        next
          case False
          have v: "?V a = [?l, func ?r]"
            using buf hb left False by (simp add: visit_atom_def Let_def)
          have "highlight_atoms beg endc skip func i atoms =
                highlight_atoms beg endc skip func (Suc (Suc i))
                  ((split i beg atoms)[Suc i := func (split i beg atoms ! Suc i)])"
            using buf hb left False lt nth r_at by (subst highlight_atoms.simps) (auto simp: Let_def)
          also have "(split i beg atoms)[Suc i := func (split i beg atoms ! Suc i)] = pre @ [?l, func ?r] @ post"
            using lp by (simp add: a1 nth_append list_update_append)
          also have "highlight_atoms beg endc skip func (Suc (Suc i)) \<dots> = pre @ [?l, func ?r] @ concat (map ?V post)"
            using step[of "[?l, func ?r]"] by simp
          finally show ?thesis unfolding goal_eq v by simp
        qed
      next
        case False
        note noleft = False
        show ?thesis
        proof (cases "endc < m_end a")
          case True
          have v: "?V a = [func (a\<lparr>m_end := endc\<rparr>), a\<lparr>m_begin := endc\<rparr>]"
            using buf hb noleft True by (simp add: visit_atom_def Let_def)
          have "highlight_atoms beg endc skip func i atoms =
                highlight_atoms beg endc skip func (Suc (Suc i))
                  ((split i endc atoms)[i := func (split i endc atoms ! i)])"
            using buf hb noleft True lt nth by (subst highlight_atoms.simps) (auto simp: Let_def)
          also have "(split i endc atoms)[i := func (split i endc atoms ! i)] = pre @ [func (a\<lparr>m_end := endc\<rparr>), a\<lparr>m_begin := endc\<rparr>] @ post"
            using lp by (simp add: sp nth_append list_update_append)
          also have "highlight_atoms beg endc skip func (Suc (Suc i)) \<dots> = pre @ [func (a\<lparr>m_end := endc\<rparr>), a\<lparr>m_begin := endc\<rparr>] @ concat (map ?V post)"
            using step[of "[func (a\<lparr>m_end := endc\<rparr>), a\<lparr>m_begin := endc\<rparr>]"] by simp
          finally show ?thesis unfolding goal_eq v by simp
        next
          case False
          have v: "?V a = [func a]"
            using buf hb noleft False by (simp add: visit_atom_def Let_def)
          have "highlight_atoms beg endc skip func i atoms =
                highlight_atoms beg endc skip func (Suc i) (atoms[i := func a])"
            using buf hb noleft False lt nth by (subst highlight_atoms.simps) (auto simp: Let_def)
          also have "atoms[i := func a] = pre @ [func a] @ post" using lp by (simp add: atoms list_update_append)
          also have "highlight_atoms beg endc skip func (Suc i) (pre @ [func a] @ post) = pre @ [func a] @ concat (map ?V post)"
            using step[of "[func a]"] by simp
          finally show ?thesis unfolding goal_eq v by simp
        qed
      qed
    qed
  qed
qed

section \<open>Properties of the simple highlighters\<close>

lemma concat_map_unchanged:
  "(\<forall>a\<in>set as. f a = [a]) \<Longrightarrow> concat (map f as) = as"
  by (induction as) auto

lemma highlight_line_visit:
  assumes "\<forall>a\<in>set (m_atoms l). has_buffer_range a \<longrightarrow>
             fst (m_range l) \<le> m_begin a \<and> m_end a \<le> snd (m_range l)"
  shows "highlight_line beg endc skip func l =
           l\<lparr>m_atoms := concat (map (visit_atom beg endc skip func) (m_atoms l))\<rparr>"
proof (cases "snd (m_range l) \<le> beg \<or> endc < fst (m_range l)")
  case True
  have "\<forall>a\<in>set (m_atoms l). visit_atom beg endc skip func a = [a]"
  proof
    fix a assume a: "a \<in> set (m_atoms l)"
    show "visit_atom beg endc skip func a = [a]"
    proof (cases "has_buffer_range a")
      case False
      then show ?thesis by (simp add: visit_atom_def)
    next
      case hb: True
      with assms a have "fst (m_range l) \<le> m_begin a" "m_end a \<le> snd (m_range l)" by auto
      with True have "\<not> (m_begin a < endc \<and> beg < m_end a)" by auto
      then show ?thesis by (simp add: visit_atom_def)
    qed
  qed
  then have "concat (map (visit_atom beg endc skip func) (m_atoms l)) = m_atoms l"
    by (rule concat_map_unchanged)
  then show ?thesis using True by (simp add: highlight_line_def)
next
  case False
  then show ?thesis
    by (simp add: highlight_line_def highlight_atoms_visit)
qed

text \<open>
  C3 (as amended): for \<open>begin < end\<close>, \<open>highlight_range\<close> replaces every atom by what
  \<open>visit_atom\<close> gives: an atom with no buffer range or not overlapping
  \<open>[begin, end)\<close> is unchanged; a replaced atom is skipped when \<open>skip_replaced\<close> and
  otherwise given whole to the callback, never split; a buffer-range atom straddling
  \<open>begin\<close> is split there and only its right half processed, one straddling \<open>end\<close> is
  split there and the callback applied to the left half, otherwise the callback is
  applied to the whole atom.
\<close>

theorem highlight_range_visits:
  assumes "beg < endc" and "ranges_cover display_buffer"
  shows "highlight_range display_buffer beg endc skip_replaced func =
           visit_range (visit_atom beg endc skip_replaced func) display_buffer"
proof -
  let ?V = "visit_atom beg endc skip_replaced func"
  have line: "highlight_line beg endc skip_replaced func l = l\<lparr>m_atoms := concat (map ?V (m_atoms l))\<rparr>"
    if "l \<in> set (lines display_buffer)" for l
    using that assms(2) by (intro highlight_line_visit) (auto simp: ranges_cover_def)
  show ?thesis
  proof (cases "endc \<le> fst (range display_buffer) \<or> beg \<ge> snd (range display_buffer)")
    case True
    have same: "l\<lparr>m_atoms := concat (map ?V (m_atoms l))\<rparr> = l" if l: "l \<in> set (lines display_buffer)" for l
    proof -
      have "\<forall>a\<in>set (m_atoms l). ?V a = [a]"
      proof
        fix a assume a: "a \<in> set (m_atoms l)"
        show "?V a = [a]"
        proof (cases "has_buffer_range a")
          case False
          then show ?thesis by (simp add: visit_atom_def)
        next
          case hb: True
          with assms(2) a l have "fst (range display_buffer) \<le> m_begin a" "m_end a \<le> snd (range display_buffer)"
            by (auto simp: ranges_cover_def)
          with True have "\<not> (m_begin a < endc \<and> beg < m_end a)" by auto
          then show ?thesis by (simp add: visit_atom_def)
        qed
      qed
      then have "concat (map ?V (m_atoms l)) = m_atoms l" by (rule concat_map_unchanged)
      then show ?thesis by simp
    qed
    have "map (\<lambda>l. l\<lparr>m_atoms := concat (map ?V (m_atoms l))\<rparr>) (lines display_buffer) = lines display_buffer"
      using same by (simp add: map_idI)
    then show ?thesis using True by (simp add: highlight_range_def visit_range_def)
  next
    case False
    have "map (highlight_line beg endc skip_replaced func) (lines display_buffer) =
          map (\<lambda>l. l\<lparr>m_atoms := concat (map ?V (m_atoms l))\<rparr>) (lines display_buffer)"
      using line by simp
    then show ?thesis using False assms(1) by (simp add: highlight_range_def visit_range_def)
  qed
qed

theorem highlight_range_visits_witness:
  "(0, 2) < ((1, 3) :: ByteCoord) \<and> ranges_cover (viewport [0, 1]) \<and>
   highlight_range (viewport [0, 1]) (0, 2) (1, 3) True (apply_face yellow) =
     (viewport [0, 1])\<lparr>lines :=
        [\<lparr>m_range = ((0, 0), (1, 0)),
           m_atoms = [buffer_atom (0, 0) (0, 2), apply_face yellow (buffer_atom (0, 2) (1, 0))]\<rparr>,
         \<lparr>m_range = ((1, 0), (2, 0)),
           m_atoms = [apply_face yellow (buffer_atom (1, 0) (1, 3)), buffer_atom (1, 3) (2, 0)]\<rparr>]\<rparr>"
  using highlight_range_visits [of "(0, 2)" "(1, 3)" "viewport [0, 1]" True "apply_face yellow"]
  by (simp add: ranges_cover_def viewport_def whole_line_def buffer_atom_def has_buffer_range_def
      visit_range_def visit_atom_def)

theorem highlight_range_replaced_counterexample:
  "highlight_range replaced_display (0, 2) (0, 3) False (apply_face yellow) =
     replaced_display\<lparr>lines :=
        [replaced_line\<lparr>m_atoms := [apply_face yellow (replace ''U+7f'' (buffer_atom (0, 0) (0, 4)))]\<rparr>]\<rparr>
   \<and> highlight_range replaced_display (0, 2) (0, 3) False (apply_face yellow) \<noteq>
       visit_range (visit_atom_spec (0, 2) (0, 3) False (apply_face yellow)) replaced_display"
  by (simp add: highlight_range_def highlight_line_def highlight_atoms_visit replaced_display_def
      replaced_line_def visit_range_def visit_atom_def visit_atom_spec_def replace_def buffer_atom_def
      has_buffer_range_def)










lemma each_line_atoms:
  assumes "each_line body ls = Inr ls'"
    and "\<And>l l'. body l = Inr l' \<Longrightarrow> length (m_atoms l') = Suc (length (m_atoms l))"
  shows "map (\<lambda>l. length (m_atoms l)) ls' = map (\<lambda>l. Suc (length (m_atoms l))) ls"
  using assms(1)
proof (induction ls arbitrary: ls')
  case Nil
  then show ?case by simp
next
  case (Cons l ls)
  then show ?case by (auto split: sum.splits dest: assms(2))
qed

lemma m_atoms_line_insert: "m_atoms (line_insert i a l) = take i (m_atoms l) @ a # drop i (m_atoms l)"
  by (simp add: line_insert_def line_compute_range_def)

lemma number_line_atoms:
  "number_line dc f l = Inr l' \<Longrightarrow> length (m_atoms l') = Suc (length (m_atoms l))"
  by (auto simp: number_line_def m_atoms_line_insert split: if_splits sum.splits)

lemma flag_line_atoms:
  "flag_line bgc lns w l = Inr l' \<Longrightarrow> length (m_atoms l') = Suc (length (m_atoms l))"
  by (auto simp: flag_line_def Let_def m_atoms_line_insert split: if_splits)

lemma show_line_numbers_atoms:
  assumes "show_line_numbers context flags db = Inr db'"
  shows "map (\<lambda>l. length (m_atoms l)) (lines db') = map (\<lambda>l. Suc (length (m_atoms l))) (lines db)"
proof -
  from assms obtain ls where
    ls: "each_line (number_line (digit_count (line_count (buffer context))) (get_face context ''LineNumbers'')) (lines db) = Inr ls"
    and db': "db' = db\<lparr>lines := ls\<rparr>"
    by (auto simp: show_line_numbers_def Let_def split: sum.splits)
  show ?thesis unfolding db' using each_line_atoms[OF ls number_line_atoms] by simp
qed

lemma flag_lines_atoms:
  assumes "flag_lines bgc option_name context flags db = Inr db'"
  shows "map (\<lambda>l. length (m_atoms l)) (lines db') = map (\<lambda>l. Suc (length (m_atoms l))) (lines db)"
proof -
  from assms obtain ls w where
    ls: "each_line (flag_line bgc (line_flags context option_name) w) (lines db) = Inr ls"
    and db': "db' = db\<lparr>lines := ls\<rparr>"
    by (auto simp: flag_lines_def Let_def split: sum.splits)
  show ?thesis unfolding db' using each_line_atoms[OF ls flag_line_atoms] by simp
qed



lemma show_line_numbers_example:
  "show_line_numbers (example_context 12) flags (viewport [0]) = Inr numbered_display"
  by (simp add: show_line_numbers_def example_context_def lines_buffer_def viewport_def line_count_def
      digit_count.simps number_line_def snprintf_line_def whole_line_def numbered_display_def
      pad_left_def show_int_def dec_digits.simps digit_char_def INT_MAX_def bar_def)

lemma flag_lines_example:
  "flag_lines Red ''flags'' (example_context 12) flags (viewport [0]) = Inr flagged_display"
  by (simp add: flag_lines_def flag_line_def example_context_def viewport_def whole_line_def
      flagged_display_def INT_MAX_def)



text \<open>
  C2 (as amended): with \<open>flags = MoveOnly\<close> the selections highlighter leaves the display
  buffer unchanged. The other seven simple highlighters, \<open>fill\<close>, \<open>show_matching\<close>,
  \<open>show_whitespaces\<close>, \<open>expand_tabulations\<close>, \<open>show_line_numbers\<close>,
  \<open>flag_lines\<close> and \<open>expand_unprintable\<close>, never read the flags: they do with
  \<open>MoveOnly\<close> what they do with \<open>Highlight\<close>. In particular \<open>show_line_numbers\<close> and
  \<open>flag_lines\<close>, when they return, have put one more atom in every display line, so
  they leave no display buffer that has a line unchanged.
\<close>

theorem move_only_selections_only:
  "highlight_selections context MoveOnly display_buffer = display_buffer
   \<and> fill facespec context MoveOnly display_buffer = fill facespec context Highlight display_buffer
   \<and> show_matching_char context MoveOnly display_buffer = show_matching_char context Highlight display_buffer
   \<and> show_whitespaces context MoveOnly display_buffer = show_whitespaces context Highlight display_buffer
   \<and> expand_tabulations context MoveOnly display_buffer = expand_tabulations context Highlight display_buffer
   \<and> expand_unprintable context MoveOnly display_buffer = expand_unprintable context Highlight display_buffer
   \<and> show_line_numbers context MoveOnly display_buffer = show_line_numbers context Highlight display_buffer
   \<and> flag_lines bgc option_name context MoveOnly display_buffer =
       flag_lines bgc option_name context Highlight display_buffer
   \<and> (show_line_numbers context MoveOnly display_buffer = Inr numbered \<longrightarrow>
        map (\<lambda>l. length (m_atoms l)) (lines numbered) =
          map (\<lambda>l. Suc (length (m_atoms l))) (lines display_buffer) \<and>
        (lines display_buffer \<noteq> [] \<longrightarrow> numbered \<noteq> display_buffer))
   \<and> (flag_lines bgc option_name context MoveOnly display_buffer = Inr flagged \<longrightarrow>
        map (\<lambda>l. length (m_atoms l)) (lines flagged) =
          map (\<lambda>l. Suc (length (m_atoms l))) (lines display_buffer) \<and>
        (lines display_buffer \<noteq> [] \<longrightarrow> flagged \<noteq> display_buffer))"
proof -
  have more: "d' \<noteq> d"
    if "map (\<lambda>l. length (m_atoms l)) (lines d') = map (\<lambda>l. Suc (length (m_atoms l))) (lines d)"
      and "lines d \<noteq> []" for d d' :: DisplayBuffer
  proof
    assume "d' = d"
    then have "map (\<lambda>l. length (m_atoms l)) (lines d) = map (\<lambda>l. Suc (length (m_atoms l))) (lines d)"
      using that(1) by simp
    then show False using that(2) by (cases "lines d") auto
  qed
  have n: "map (\<lambda>l. length (m_atoms l)) (lines numbered) =
             map (\<lambda>l. Suc (length (m_atoms l))) (lines display_buffer)"
    if "show_line_numbers context MoveOnly display_buffer = Inr numbered"
    using that by (rule show_line_numbers_atoms)
  have f: "map (\<lambda>l. length (m_atoms l)) (lines flagged) =
             map (\<lambda>l. Suc (length (m_atoms l))) (lines display_buffer)"
    if "flag_lines bgc option_name context MoveOnly display_buffer = Inr flagged"
    using that by (rule flag_lines_atoms)
  show ?thesis
    using n f more[of numbered display_buffer] more[of flagged display_buffer]
    by (simp add: highlight_selections_def fill_def show_line_numbers_def flag_lines_def
        show_matching_char_def show_whitespaces_def expand_tabulations_def expand_unprintable_def)
qed

lemma highlight_selections_example:
  "highlight_selections paren_context Highlight (viewport [0]) \<noteq> viewport [0]"
  by code_simp

theorem move_only_selections_only_witness:
  "highlight_selections paren_context MoveOnly (viewport [0]) = viewport [0]
   \<and> highlight_selections paren_context Highlight (viewport [0]) \<noteq> viewport [0]
   \<and> show_line_numbers (example_context 12) MoveOnly (viewport [0]) = Inr numbered_display
   \<and> map (\<lambda>l. length (m_atoms l)) (lines numbered_display) = [2]
   \<and> numbered_display \<noteq> viewport [0]
   \<and> flag_lines Red ''flags'' (example_context 12) MoveOnly (viewport [0]) = Inr flagged_display
   \<and> flagged_display \<noteq> viewport [0]"
proof -
  note sel = move_only_selections_only [of paren_context "viewport [0]" "''yellow''" Red "''flags''"
      numbered_display flagged_display]
  note num = move_only_selections_only [of "example_context 12" "viewport [0]" "''yellow''" Red "''flags''"
      numbered_display flagged_display]
  have l: "lines (viewport [0]) \<noteq> []" by (simp add: viewport_def)
  have a: "map (\<lambda>l. Suc (length (m_atoms l))) (lines (viewport [0])) = [2]"
    by (simp add: viewport_def whole_line_def)
  from sel have "highlight_selections paren_context MoveOnly (viewport [0]) = viewport [0]" by blast
  moreover from num show_line_numbers_example [of MoveOnly] l
  have "map (\<lambda>l. length (m_atoms l)) (lines numbered_display) =
          map (\<lambda>l. Suc (length (m_atoms l))) (lines (viewport [0]))"
    and "numbered_display \<noteq> viewport [0]" by blast+
  moreover from num flag_lines_example [of MoveOnly] l
  have "flagged_display \<noteq> viewport [0]" by blast
  ultimately show ?thesis
    using highlight_selections_example show_line_numbers_example [of MoveOnly]
      flag_lines_example [of MoveOnly] a by simp
qed

theorem simple_highlighters_move_only_counterexample:
  "fill ''f'' paren_context MoveOnly (viewport [0]) \<noteq> viewport [0]
   \<and> show_matching_char paren_context MoveOnly (viewport [0]) \<noteq> Inr (viewport [0])
   \<and> show_whitespaces ctl_context MoveOnly (viewport [0]) \<noteq> Inr (viewport [0])
   \<and> expand_tabulations ctl_context MoveOnly (viewport [0]) \<noteq> Inr (viewport [0])
   \<and> show_line_numbers (example_context 12) MoveOnly (viewport [0]) \<noteq> Inr (viewport [0])
   \<and> flag_lines Red ''flags'' (example_context 12) MoveOnly (viewport [0]) \<noteq> Inr (viewport [0])
   \<and> expand_unprintable ctl_context MoveOnly (viewport [0]) \<noteq> Inr (viewport [0])"
  by code_simp

section \<open>Properties of the word database\<close>

lemma set_wl_incr: "fst ` set (wl_incr w wl) = insert w (fst ` set wl)"
  by (induction w wl rule: wl_incr.induct) auto

lemma wl_incr_ok: "wl_ok wl \<Longrightarrow> wl_ok (wl_incr w wl)"
proof (induction w wl rule: wl_incr.induct)
  case (1 w)
  then show ?case by (simp add: wl_ok_def)
next
  case (2 w k c r)
  then have r: "wl_ok r" by (auto simp: wl_ok_def)
  show ?case
  proof (cases "w = k")
    case True
    then show ?thesis using 2(2) by (auto simp: wl_ok_def)
  next
    case False
    show ?thesis
    proof (cases "w < k")
      case True
      then show ?thesis using 2(2) False by (auto simp: wl_ok_def)
    next
      case nless: False
      then have kw: "k < w" using False by auto
      have ih: "wl_ok (wl_incr w r)" using 2(1)[OF False nless r] .
      have "\<forall>x\<in>fst ` set (wl_incr w r). k < x"
        using 2(2) kw unfolding set_wl_incr by (auto simp: wl_ok_def)
      then show ?thesis using ih 2(2) False nless by (auto simp: wl_ok_def)
    qed
  qed
qed

lemma wl_incr_mset: "wl_ok wl \<Longrightarrow> wl_mset (wl_incr w wl) = add_mset w (wl_mset wl)"
proof (induction w wl rule: wl_incr.induct)
  case (1 w)
  then show ?case by simp
next
  case (2 w k c r)
  then have r: "wl_ok r" and c: "0 < c" by (auto simp: wl_ok_def)
  have "nat (c + 1) = Suc (nat c)" using c by simp
  then show ?case using 2(1) r by (auto)
qed

lemma add_words_ok: "wl_ok wl \<Longrightarrow> wl_ok (add_words wl ws) \<and> wl_mset (add_words wl ws) = wl_mset wl + mset ws"
  unfolding add_words_def
  by (induction ws arbitrary: wl) (auto simp: wl_incr_ok wl_incr_mset)

lemma set_wl_decr: "wl_decr w wl = Inr wl' \<Longrightarrow> set wl' \<subseteq> set wl \<union> {(k, c - 1) | k c. (k, c) \<in> set wl \<and> c > 1}"
proof (induction w wl arbitrary: wl' rule: wl_decr.induct)
  case (1 w)
  then show ?case by simp
next
  case (2 w k c r)
  show ?case
  proof (cases "w = k")
    case True
    then show ?thesis using 2(2) by (auto split: if_splits)
  next
    case False
    then obtain r' where r': "wl_decr w r = Inr r'" and wl': "wl' = (k, c) # r'"
      using 2(2) by (auto split: sum.splits)
    from 2(1)[OF False r'] show ?thesis unfolding wl' by auto
  qed
qed

lemma fst_set_wl_decr: "wl_decr w wl = Inr wl' \<Longrightarrow> fst ` set wl' \<subseteq> fst ` set wl"
  by (drule set_wl_decr) force

lemma wl_decr_ok: "wl_ok wl \<Longrightarrow> wl_decr w wl = Inr wl' \<Longrightarrow> wl_ok wl'"
proof (induction w wl arbitrary: wl' rule: wl_decr.induct)
  case (1 w)
  then show ?case by simp
next
  case (2 w k c r)
  then have r: "wl_ok r" by (auto simp: wl_ok_def)
  show ?case
  proof (cases "w = k")
    case True
    then show ?thesis using 2(2,3) by (auto simp: wl_ok_def split: if_splits)
  next
    case False
    then obtain r' where r': "wl_decr w r = Inr r'" and wl': "wl' = (k, c) # r'"
      using 2(3) by (auto split: sum.splits)
    have ih: "wl_ok r'" using 2(1)[OF False r r'] .
    have "\<forall>x\<in>fst ` set r. k < x" using 2(2) by (auto simp: wl_ok_def)
    then have "\<forall>x\<in>fst ` set r'. k < x" using fst_set_wl_decr[OF r'] by blast
    then show ?thesis using ih 2(2) unfolding wl' by (auto simp: wl_ok_def)
  qed
qed

lemma wl_decr_mset: "wl_ok wl \<Longrightarrow> wl_decr w wl = Inr wl' \<Longrightarrow> add_mset w (wl_mset wl') = wl_mset wl"
proof (induction w wl arbitrary: wl' rule: wl_decr.induct)
  case (1 w)
  then show ?case by simp
next
  case (2 w k c r)
  then have r: "wl_ok r" by (auto simp: wl_ok_def)
  show ?case
  proof (cases "w = k")
    case True
    then have c: "c > 0" using 2(3) by (auto split: if_splits)
    then obtain n where n: "nat c = Suc n" by (cases "nat c") auto
    then have n1: "nat (c - 1) = n" by simp
    show ?thesis using True 2(3) c n n1 by (auto split: if_splits)
  next
    case False
    then obtain r' where r': "wl_decr w r = Inr r'" and wl': "wl' = (k, c) # r'"
      using 2(3) by (auto split: sum.splits)
    from 2(1)[OF False r r'] show ?thesis unfolding wl' by simp
  qed
qed

lemma remove_words_ok:
  "wl_ok wl \<Longrightarrow> remove_words wl ws = Inr wl' \<Longrightarrow> wl_ok wl' \<and> wl_mset wl' + mset ws = wl_mset wl"
proof (induction ws arbitrary: wl)
  case Nil
  then show ?case by simp
next
  case (Cons w ws)
  then obtain wl1 where d: "wl_decr w wl = Inr wl1" and rest: "remove_words wl1 ws = Inr wl'"
    by (auto split: sum.splits)
  have ok1: "wl_ok wl1" using wl_decr_ok[OF Cons.prems(1) d] .
  from Cons.IH[OF ok1 rest] wl_decr_mset[OF Cons.prems(1) d]
  show ?case by (auto simp flip: add_mset_add_single)
qed

lemma drop_step:
  assumes "0 \<le> old_l" "old_l < int (length ltw)"
  shows "drop (nat old_l) ltw = ltw ! nat old_l # drop (nat (old_l + 1)) ltw"
proof -
  have "nat old_l < length ltw" using assms by simp
  moreover have "nat (old_l + 1) = Suc (nat old_l)" using assms by simp
  ultimately show ?thesis by (simp add: Cons_nth_drop_Suc)
qed

lemma copy_until_inv:
  "loop_inv ltw old_l new_lines words \<Longrightarrow> copy_until ltw target old_l new_lines = Inr (old_l', new_lines')
     \<Longrightarrow> loop_inv ltw old_l' new_lines' words"
proof (induction ltw target old_l new_lines rule: copy_until.induct)
  case (1 ltw target old_l new_lines)
  show ?case
  proof (cases "old_l < target")
    case True
    then have rng: "0 \<le> old_l" "old_l < int (length ltw)"
      and rec: "copy_until ltw target (old_l + 1) (new_lines @ [ltw ! nat old_l]) = Inr (old_l', new_lines')"
      using 1(3) by (auto simp: copy_until.simps[of ltw target old_l] split: if_splits)
    have "loop_inv ltw (old_l + 1) (new_lines @ [ltw ! nat old_l]) words"
      using 1(2) rng by (simp add: loop_inv_def drop_step[OF rng])
    from 1(1)[OF True _ this rec] rng show ?thesis by simp
  next
    case False
    then show ?thesis using 1(2,3) by (simp add: copy_until.simps[of ltw target old_l])
  qed
qed

lemma remove_until_inv:
  "loop_inv ltw old_l new_lines words \<Longrightarrow> remove_until ltw last_line old_l words = Inr (old_l', words')
     \<Longrightarrow> loop_inv ltw old_l' new_lines words'"
proof (induction ltw last_line old_l words rule: remove_until.induct)
  case (1 ltw last_line old_l words)
  show ?case
  proof (cases "old_l \<le> last_line")
    case True
    then obtain words1 where rng: "0 \<le> old_l" "old_l < int (length ltw)"
      and rm: "remove_words words (ltw ! nat old_l) = Inr words1"
      and rec: "remove_until ltw last_line (old_l + 1) words1 = Inr (old_l', words')"
      using 1(3) by (auto simp: remove_until.simps[of ltw last_line old_l] split: if_splits sum.splits)
    have ok: "wl_ok words" using 1(2) by (simp add: loop_inv_def)
    from remove_words_ok[OF ok rm] have ok1: "wl_ok words1"
      and m: "wl_mset words1 + mset (ltw ! nat old_l) = wl_mset words" by auto
    have "wl_mset words1 + mset (ltw ! nat old_l) =
          (mset (concat new_lines) + mset (concat (drop (nat (old_l + 1)) ltw))) + mset (ltw ! nat old_l)"
      using 1(2) m by (simp add: loop_inv_def drop_step[OF rng])
    then have "wl_mset words1 = mset (concat new_lines) + mset (concat (drop (nat (old_l + 1)) ltw))"
      by simp
    then have "loop_inv ltw (old_l + 1) new_lines words1"
      using ok1 rng by (simp add: loop_inv_def)
    from 1(1)[OF True _ _ rm this rec] rng show ?thesis by simp
  next
    case False
    then show ?thesis using 1(2,3) by (simp add: remove_until.simps[of ltw last_line old_l])
  qed
qed

lemma add_from_inv:
  "loop_inv ltw old_l new_lines words \<Longrightarrow> add_from letter buf modif l new_lines words = (new_lines', words')
     \<Longrightarrow> loop_inv ltw old_l new_lines' words'"
proof (induction letter buf modif l new_lines words rule: add_from.induct)
  case (1 letter buf modif l new_lines words)
  show ?case
  proof (cases "l \<le> num_added modif \<and> \<not> new_line modif + l \<ge> line_count buf")
    case True
    let ?ws = "get_words letter (buf_line buf (new_line modif + l))"
    have rec: "add_from letter buf modif (l + 1) (new_lines @ [?ws]) (add_words words ?ws) = (new_lines', words')"
      using 1(3) True by (simp add: add_from.simps[of letter buf modif l])
    have ok: "wl_ok words" using 1(2) by (simp add: loop_inv_def)
    have "loop_inv ltw old_l (new_lines @ [?ws]) (add_words words ?ws)"
      using 1(2) add_words_ok[OF ok, of ?ws] by (simp add: loop_inv_def)
    from 1(1)[OF _ _ this rec] True show ?thesis by simp
  next
    case False
    then show ?thesis using 1(2,3) by (auto simp: add_from.simps[of letter buf modif l] split: if_splits)
  qed
qed

lemma update_modifs_inv:
  "loop_inv ltw old_l new_lines words \<Longrightarrow>
   update_modifs letter buf ltw modifs old_l new_lines words = Inr (old_l', new_lines', words') \<Longrightarrow>
   loop_inv ltw old_l' new_lines' words'"
proof (induction modifs arbitrary: old_l new_lines words)
  case Nil
  then show ?case by simp
next
  case (Cons modif modifs)
  from Cons.prems(2) obtain old_l1 new_lines1 old_l2 words1 new_lines2 words2 where
    c: "copy_until ltw (old_line modif) old_l new_lines = Inr (old_l1, new_lines1)"
    and r: "remove_until ltw (old_line modif + num_removed modif) old_l1 words = Inr (old_l2, words1)"
    and a: "add_from letter buf modif 0 new_lines1 words1 = (new_lines2, words2)"
    and u: "update_modifs letter buf ltw modifs old_l2 new_lines2 words2 = Inr (old_l', new_lines', words')"
    by (auto split: if_splits sum.splits prod.splits)
  have "loop_inv ltw old_l1 new_lines1 words" using copy_until_inv[OF Cons.prems(1) c] .
  then have "loop_inv ltw old_l2 new_lines1 words1" using r by (rule remove_until_inv)
  then have "loop_inv ltw old_l2 new_lines2 words2" using a by (rule add_from_inv)
  then show ?case using u by (rule Cons.IH)
qed

lemma copy_until_end:
  "copy_until ltw target old_l new_lines = Inr (old_l', new_lines') \<Longrightarrow> old_l \<le> target \<Longrightarrow> old_l' = target"
proof (induction ltw target old_l new_lines rule: copy_until.induct)
  case (1 ltw target old_l new_lines)
  show ?case
  proof (cases "old_l < target")
    case True
    then have rng: "0 \<le> old_l \<and> old_l < int (length ltw)"
      and rec: "copy_until ltw target (old_l + 1) (new_lines @ [ltw ! nat old_l]) = Inr (old_l', new_lines')"
      using 1(2) by (auto simp: copy_until.simps[of ltw target old_l] split: if_splits)
    from 1(1)[OF True rng rec] True show ?thesis by simp
  next
    case False
    then have "copy_until ltw target old_l new_lines = Inr (old_l, new_lines)"
      by (simp add: copy_until.simps[of ltw target old_l])
    then show ?thesis using 1(2,3) False by simp
  qed
qed

lemma update_db_invariant:
  assumes inv: "db_invariant db" and upd: "update_db letter buf db = Inr db'"
  shows "db_invariant db'"
proof (cases "changes_since buf (m_timestamp db) = []")
  case True
  then have "db' = db\<lparr>m_timestamp := timestamp buf\<rparr>" using upd by (simp add: update_db_def)
  then show ?thesis using inv by (simp add: db_invariant_def)
next
  case False
  let ?ltw = "m_line_to_words db"
  from upd False obtain old_l new_lines words old_l' new_lines' where
    u: "update_modifs letter buf ?ltw (changes_since buf (m_timestamp db)) 0 [] (m_words db) = Inr (old_l, new_lines, words)"
    and le: "old_l \<le> int (length ?ltw)"
    and c: "copy_until ?ltw (int (length ?ltw)) old_l new_lines = Inr (old_l', new_lines')"
    and db': "db' = db\<lparr>m_timestamp := timestamp buf, m_words := words, m_line_to_words := new_lines'\<rparr>"
    by (auto simp: update_db_def Let_def split: sum.splits prod.splits if_splits)
  have "loop_inv ?ltw 0 [] (m_words db)"
    using inv by (simp add: loop_inv_def db_invariant_def wl_ok_def)
  then have "loop_inv ?ltw old_l new_lines words" using u by (rule update_modifs_inv)
  then have "loop_inv ?ltw old_l' new_lines' words" using c by (rule copy_until_inv)
  moreover have "old_l' = int (length ?ltw)" using copy_until_end[OF c le] .
  ultimately show ?thesis by (simp add: loop_inv_def db_invariant_def wl_ok_def db')
qed

lemma new_WordDB_invariant: "db_invariant (new_WordDB letter buf)"
proof -
  have "db_invariant (fold (\<lambda>l db. db\<lparr>m_line_to_words := m_line_to_words db @ [get_words letter l],
                      m_words := add_words (m_words db) (get_words letter l)\<rparr>) ls db)"
    if "db_invariant db" for ls db
    using that
  proof (induction ls arbitrary: db)
    case Nil
    then show ?case by simp
  next
    case (Cons l ls)
    have ok: "wl_ok (m_words db)" using Cons.prems by (simp add: db_invariant_def wl_ok_def)
    have "db_invariant (db\<lparr>m_line_to_words := m_line_to_words db @ [get_words letter l],
                      m_words := add_words (m_words db) (get_words letter l)\<rparr>)"
      using add_words_ok[OF ok, of "get_words letter l"] Cons.prems
      by (simp add: db_invariant_def wl_ok_def)
    then show ?case using Cons.IH by simp
  qed
  moreover have "db_invariant \<lparr>m_timestamp = timestamp buf, m_words = [], m_line_to_words = []\<rparr>"
    by (simp add: db_invariant_def)
  ultimately show ?thesis by (simp add: new_WordDB_def)
qed

lemma wl_sum: "\<forall>c\<in>set (map snd wl). 0 < c \<Longrightarrow> sum_list (map snd wl) = int (size (wl_mset wl))"
  by (induction wl) auto

lemma wl_count:
  "sorted_wrt (<) (map fst wl) \<Longrightarrow> \<forall>c\<in>set (map snd wl). 0 < c \<Longrightarrow>
   (case map_of wl w of Some c \<Rightarrow> c | None \<Rightarrow> 0) = int (count (wl_mset wl) w)"
proof (induction wl)
  case Nil
  then show ?case by simp
next
  case (Cons kc wl)
  obtain k c where kc: "kc = (k, c)" by (cases kc)
  show ?case
  proof (cases "w = k")
    case True
    then have "w \<notin> fst ` set wl" using Cons.prems(1) kc by auto
    then have "w \<notin># wl_mset wl"
    proof (induction wl)
      case Nil
      then show ?case by simp
    next
      case (Cons a wl)
      then show ?case by (cases a) (auto split: if_splits)
    qed
    then have "count (wl_mset wl) w = 0" by (simp add: count_eq_zero_iff)
    then show ?thesis using True kc Cons.prems(2) by simp
  next
    case False
    then show ?thesis using Cons kc by simp
  qed
qed

lemma size_mset_concat: "size (mset (concat xss)) = sum_list (map length xss)"
  by (induction xss) auto

text \<open>
  C7: the database built by the constructor satisfies the invariant, every \<open>update_db\<close>
  that returns keeps it, and under the invariant the sum of the counts of the map is the
  sum of the lengths of the lines of \<open>m_line_to_words\<close>, each word being counted as often
  as it occurs in these lines.
\<close>

theorem word_db_sum_invariant:
  "db_invariant (new_WordDB letter buf)
   \<and> (db_invariant db \<longrightarrow> update_db letter buf' db = Inr db' \<longrightarrow> db_invariant db')
   \<and> (db_invariant db \<longrightarrow>
        sum_list (map snd (m_words db)) = int (sum_list (map length (m_line_to_words db)))
        \<and> (\<forall>w. get_word_occurences db w = int (count_list (concat (m_line_to_words db)) w)))"
proof (intro conjI impI allI)
  show "db_invariant (new_WordDB letter buf)" by (rule new_WordDB_invariant)
next
  assume "db_invariant db" "update_db letter buf' db = Inr db'"
  then show "db_invariant db'" by (rule update_db_invariant)
next
  assume inv: "db_invariant db"
  then show "sum_list (map snd (m_words db)) = int (sum_list (map length (m_line_to_words db)))"
    by (simp add: db_invariant_def wl_sum length_concat del: set_map)
next
  fix w
  assume inv: "db_invariant db"
  then have "get_word_occurences db w = int (count (wl_mset (m_words db)) w)"
    unfolding get_word_occurences_def db_invariant_def by (intro wl_count) auto
  then show "get_word_occurences db w = int (count_list (concat (m_line_to_words db)) w)"
    using inv by (simp add: db_invariant_def count_mset)
qed

lemma update_db_example:
  "update_db no_letter words_buffer_edited (new_WordDB no_letter words_buffer) = Inr words_db_edited"
  by code_simp

theorem word_db_sum_invariant_witness:
  "db_invariant (new_WordDB no_letter words_buffer)
   \<and> update_db no_letter words_buffer_edited (new_WordDB no_letter words_buffer) = Inr words_db_edited
   \<and> db_invariant words_db_edited
   \<and> sum_list (map snd (m_words words_db_edited)) = 4
   \<and> int (sum_list (map length (m_line_to_words words_db_edited))) = 4"
  using word_db_sum_invariant [of no_letter words_buffer "new_WordDB no_letter words_buffer" words_buffer_edited words_db_edited]
    word_db_sum_invariant [of no_letter words_buffer words_db_edited words_buffer_edited words_db_edited]
    update_db_example
  by (simp add: words_db_edited_def)

lemma update_db_timestamp: "update_db letter buf db = Inr db' \<Longrightarrow> m_timestamp db' = timestamp buf"
  by (auto simp: update_db_def Let_def split: if_splits sum.splits prod.splits)

text \<open>
  \<open>update_db\<close> returns, and rebuilds the database: when the database holds the words of
  the earlier lines of the buffer and the line modifications since its timestamp describe
  the change to the current lines, the loops read inside the vector, every word to remove
  is in the map, and the result is the database the constructor builds from the buffer.
\<close>

lemma wl_decr_succeeds:
  "wl_ok wl \<Longrightarrow> w \<in># wl_mset wl \<Longrightarrow> \<exists>wl'. wl_decr w wl = Inr wl'"
proof (induction w wl rule: wl_decr.induct)
  case (1 w)
  then show ?case by simp
next
  case (2 w k c r)
  then have r: "wl_ok r" and c: "0 < c" by (auto simp: wl_ok_def)
  show ?case
  proof (cases "w = k")
    case True
    then show ?thesis using c by simp
  next
    case False
    then have "w \<in># wl_mset r" using 2(3) by (auto split: if_splits)
    from 2(1)[OF False r this] show ?thesis using False by auto
  qed
qed

lemma remove_words_succeeds:
  "wl_ok wl \<Longrightarrow> mset ws \<subseteq># wl_mset wl \<Longrightarrow> \<exists>wl'. remove_words wl ws = Inr wl'"
proof (induction ws arbitrary: wl)
  case Nil
  then show ?case by simp
next
  case (Cons w ws)
  have "w \<in># wl_mset wl" using Cons.prems(2) by (auto dest: mset_subset_eqD)
  from wl_decr_succeeds[OF Cons.prems(1) this] obtain wl1 where d: "wl_decr w wl = Inr wl1" by blast
  have ok1: "wl_ok wl1" using wl_decr_ok[OF Cons.prems(1) d] .
  have "add_mset w (wl_mset wl1) = wl_mset wl" using wl_decr_mset[OF Cons.prems(1) d] .
  then have "mset ws \<subseteq># wl_mset wl1" using Cons.prems(2)
    by (metis add_mset_add_single mset.simps(2) subset_mset.add_le_cancel_right union_commute add_mset_add_single)
  from Cons.IH[OF ok1 this] show ?case using d by auto
qed

lemma copy_until_eq:
  "0 \<le> old_l \<Longrightarrow> old_l \<le> target \<Longrightarrow> target \<le> int (length ltw) \<Longrightarrow>
   copy_until ltw target old_l new_lines =
     Inr (target, new_lines @ take (nat (target - old_l)) (drop (nat old_l) ltw))"
proof (induction ltw target old_l new_lines rule: copy_until.induct)
  case (1 ltw target old_l new_lines)
  show ?case
  proof (cases "old_l < target")
    case True
    then have rng: "0 \<le> old_l \<and> old_l < int (length ltw)" using 1(2,4) by simp
    have d: "drop (nat old_l) ltw = ltw ! nat old_l # drop (nat (old_l + 1)) ltw"
      using rng by (intro drop_step) auto
    have n: "nat (target - old_l) = Suc (nat (target - (old_l + 1)))" using True by simp
    have "copy_until ltw target old_l new_lines =
          copy_until ltw target (old_l + 1) (new_lines @ [ltw ! nat old_l])"
      using True rng by (subst copy_until.simps) simp
    also have "\<dots> = Inr (target, (new_lines @ [ltw ! nat old_l]) @
                  take (nat (target - (old_l + 1))) (drop (nat (old_l + 1)) ltw))"
      using 1(1)[OF True rng] True 1(2,4) by simp
    finally show ?thesis unfolding d n by simp
  next
    case False
    then have "old_l = target" using 1(3) by simp
    then show ?thesis by (subst copy_until.simps) simp
  qed
qed

lemma remove_until_succeeds:
  "loop_inv ltw old_l new_lines words \<Longrightarrow> last_line < int (length ltw) \<Longrightarrow> old_l \<le> last_line + 1 \<Longrightarrow>
   \<exists>words'. remove_until ltw last_line old_l words = Inr (last_line + 1, words')"
proof (induction ltw last_line old_l words rule: remove_until.induct)
  case (1 ltw last_line old_l words)
  show ?case
  proof (cases "old_l \<le> last_line")
    case True
    have op: "0 \<le> old_l" and ok: "wl_ok words"
      and ms: "wl_mset words = mset (concat new_lines) + mset (concat (drop (nat old_l) ltw))"
      using 1(2) by (auto simp: loop_inv_def)
    have rng: "0 \<le> old_l" "old_l < int (length ltw)" using op True 1(3) by auto
    have d: "drop (nat old_l) ltw = ltw ! nat old_l # drop (nat (old_l + 1)) ltw"
      using rng by (rule drop_step)
    have "mset (ltw ! nat old_l) \<subseteq># wl_mset words" unfolding ms d by simp
    from remove_words_succeeds[OF ok this] obtain words1 where
      rm: "remove_words words (ltw ! nat old_l) = Inr words1" by blast
    have step: "remove_until ltw last_line old_l words = remove_until ltw last_line (old_l + 1) words1"
      using True rng rm by (subst remove_until.simps) simp
    have "loop_inv ltw (old_l + 1) new_lines words1"
    proof -
      have e: "remove_until ltw old_l (old_l + 1) words1 = Inr (old_l + 1, words1)"
        by (subst remove_until.simps) simp
      have "remove_until ltw old_l old_l words = Inr (old_l + 1, words1)"
        using rng rm e by (subst remove_until.simps) simp
      with 1(2) show ?thesis by (rule remove_until_inv)
    qed
    from 1(1)[OF True _ _ rm this 1(3)] rng True show ?thesis unfolding step by simp
  next
    case False
    then have "old_l = last_line + 1" using 1(4) by simp
    then show ?thesis by (subst remove_until.simps) simp
  qed
qed

lemma add_from_lines:
  "0 \<le> new_line modif + l \<Longrightarrow>
   fst (add_from letter buf modif l new_lines words) =
     new_lines @ map (\<lambda>i. get_words letter (buf_line buf i))
                     [new_line modif + l..min (new_line modif + num_added modif) (line_count buf - 1)]"
proof (induction letter buf modif l new_lines words rule: add_from.induct)
  case (1 letter buf modif l new_lines words)
  let ?hi = "min (new_line modif + num_added modif) (line_count buf - 1)"
  show ?case
  proof (cases "l \<le> num_added modif \<and> \<not> new_line modif + l \<ge> line_count buf")
    case True
    then have "new_line modif + l \<le> ?hi" by simp
    then have u: "[new_line modif + l..?hi] = (new_line modif + l) # [new_line modif + (l + 1)..?hi]"
      by (simp add: upto_rec1 add.assoc)
    have "add_from letter buf modif l new_lines words =
          add_from letter buf modif (l + 1) (new_lines @ [get_words letter (buf_line buf (new_line modif + l))])
             (add_words words (get_words letter (buf_line buf (new_line modif + l))))"
      using True by (subst add_from.simps) simp
    then show ?thesis unfolding u using 1(1)[of] True 1(2) by simp
  next
    case False
    then have "new_line modif + num_added modif < new_line modif + l \<or> line_count buf - 1 < new_line modif + l"
      by linarith
    then have "?hi < new_line modif + l" by (simp add: min_less_iff_disj)
    then have "[new_line modif + l..?hi] = []" by simp
    then show ?thesis using False by (subst add_from.simps) auto
  qed
qed

lemma set_mset_wl: "wl_ok wl \<Longrightarrow> set_mset (wl_mset wl) = fst ` set wl"
proof (induction wl)
  case Nil
  then show ?case by simp
next
  case (Cons kc wl)
  obtain k c where kc: "kc = (k, c)" by (cases kc)
  have "wl_ok wl" and "0 < c" using Cons.prems kc by (auto simp: wl_ok_def)
  then show ?case using Cons.IH kc by auto
qed

lemma wl_values:
  "distinct (map fst wl) \<Longrightarrow> map snd wl = map (\<lambda>kc. the (map_of wl (fst kc))) wl"
proof (rule map_cong)
  fix x
  assume d: "distinct (map fst wl)" and x: "x \<in> set wl"
  then have "map_of wl (fst x) = Some (snd x)" by (intro map_of_is_SomeI) auto
  then show "snd x = the (map_of wl (fst x))" by simp
qed simp

lemma wl_unique:
  assumes a: "wl_ok a" and b: "wl_ok b" and eq: "wl_mset a = wl_mset b"
  shows "a = b"
proof (rule pair_list_eqI)
  have sa: "sorted_wrt (<) (map fst a)" and sb: "sorted_wrt (<) (map fst b)"
    and pa: "\<forall>c\<in>set (map snd a). 0 < c" and pb: "\<forall>c\<in>set (map snd b). 0 < c"
    using a b by (auto simp: wl_ok_def)
  have "set (map fst a) = set (map fst b)"
    using set_mset_wl[OF a] set_mset_wl[OF b] eq by simp
  then show keys: "map fst a = map fst b"
    using sa sb by (intro strict_sorted_equal) auto
  have da: "distinct (map fst a)" and db: "distinct (map fst b)"
    using sa sb strict_sorted_iff by blast+
  have vals: "the (map_of a k) = the (map_of b k)" if k: "k \<in> set (map fst a)" for k
  proof -
    obtain ca where ca: "map_of a k = Some ca"
      using k by (cases "map_of a k") (auto simp: map_of_eq_None_iff)
    have "k \<in> set (map fst b)" using k keys by simp
    then obtain cb where cb: "map_of b k = Some cb"
      by (cases "map_of b k") (auto simp: map_of_eq_None_iff)
    from wl_count[OF sa pa, of k] wl_count[OF sb pb, of k] ca cb eq show ?thesis by simp
  qed
  have "map snd a = map (\<lambda>k. the (map_of a k)) (map fst a)"
    using wl_values[OF da] by (simp add: comp_def)
  also have "\<dots> = map (\<lambda>k. the (map_of b k)) (map fst a)"
    using vals by (intro map_cong) auto
  also have "\<dots> = map snd b"
    unfolding keys using wl_values[OF db] by (simp add: comp_def)
  finally show "map snd a = map snd b" .
qed

lemma new_WordDB_lines:
  "m_line_to_words (new_WordDB letter buf) = map (get_words letter) (buf_lines buf) \<and> m_timestamp (new_WordDB letter buf) = timestamp buf"
proof -
  have "m_line_to_words (fold (\<lambda>l db. db\<lparr>m_line_to_words := m_line_to_words db @ [get_words letter l],
                      m_words := add_words (m_words db) (get_words letter l)\<rparr>) ls db) = m_line_to_words db @ map (get_words letter) ls
        \<and> m_timestamp (fold (\<lambda>l db. db\<lparr>m_line_to_words := m_line_to_words db @ [get_words letter l],
                      m_words := add_words (m_words db) (get_words letter l)\<rparr>) ls db) = m_timestamp db" for ls and db :: WordDB
    by (induction ls arbitrary: db) auto
  then show ?thesis by (simp add: new_WordDB_def)
qed

lemma db_unique:
  assumes "db_invariant a" and "db_invariant b" and "m_line_to_words a = m_line_to_words b"
    and "m_timestamp a = m_timestamp b"
  shows "a = (b :: WordDB)"
proof -
  have "m_words a = m_words b"
    using assms by (intro wl_unique) (auto simp: db_invariant_def wl_ok_def)
  then show ?thesis using assms by simp
qed

lemma nth_range:
  "0 \<le> n \<Longrightarrow> hi < int (length xs) \<Longrightarrow> map (\<lambda>i. xs ! nat i) [n..hi] = take (nat (hi + 1 - n)) (drop (nat n) xs)"
proof (induction "nat (hi + 1 - n)" arbitrary: n)
  case 0
  then show ?case by simp
next
  case (Suc k)
  then have lt: "n \<le> hi" by simp
  have u: "[n..hi] = n # [n + 1..hi]" using lt by (simp add: upto_rec1)
  have d: "drop (nat n) xs = xs ! nat n # drop (nat (n + 1)) xs"
    using Suc.prems lt by (intro drop_step) auto
  have k: "k = nat (hi + 1 - (n + 1))" using Suc(2) by simp
  have n: "nat (hi + 1 - n) = Suc (nat (hi + 1 - (n + 1)))" using lt by simp
  from Suc(1)[OF k] Suc.prems show ?case unfolding u d n by simp
qed

lemma update_modifs_walk:
  "modifs_between old new op np modifs \<Longrightarrow> op \<le> int (length old) \<Longrightarrow> buf_lines buf = new \<Longrightarrow>
   loop_inv (map (get_words letter) old) op new_lines words \<Longrightarrow>
   new_lines = map (get_words letter) (take (nat np) new) \<Longrightarrow>
   \<exists>old_l' new_lines' words'.
      update_modifs letter buf (map (get_words letter) old) modifs op new_lines words = Inr (old_l', new_lines', words') \<and>
      0 \<le> old_l' \<and> old_l' \<le> int (length old) \<and>
      new_lines' @ drop (nat old_l') (map (get_words letter) old) = map (get_words letter) new"
proof (induction modifs arbitrary: op np new_lines words)
  case Nil
  then have "drop (nat op) old = drop (nat np) new" and "0 \<le> op" by auto
  then have "map (get_words letter) (take (nat np) new) @ drop (nat op) (map (get_words letter) old) = map (get_words letter) new"
    by (simp add: drop_map flip: map_append)
  then show ?case using Nil by simp
next
  case (Cons m ms)
  let ?ltw = "map (get_words letter) old"
  let ?k = "nat (old_line m - op)"
  have op: "0 \<le> op" "0 \<le> np" "op \<le> old_line m" and nl: "new_line m = np + (old_line m - op)"
    and nn: "0 \<le> num_removed m" "0 \<le> num_added m"
    and olt: "old_line m + num_removed m < int (length old)" and nlt: "new_line m < int (length new)"
    and same: "take ?k (drop (nat op) old) = take ?k (drop (nat np) new)"
    and rest: "modifs_between old new (old_line m + num_removed m + 1) (new_line m + num_added m + 1) ms"
    using Cons.prems(1) by auto
  define new_lines1 where "new_lines1 = new_lines @ take ?k (drop (nat op) ?ltw)"
  have c: "copy_until ?ltw (old_line m) op new_lines = Inr (old_line m, new_lines1)"
    unfolding new_lines1_def using op nn olt by (intro copy_until_eq) auto
  have "take (nat np) new @ take ?k (drop (nat np) new) = take (nat (new_line m)) new"
    using op nl by (simp add: take_add[symmetric] nat_add_distrib)
  then have nl1: "new_lines1 = map (get_words letter) (take (nat (new_line m)) new)"
    unfolding new_lines1_def Cons.prems(5) using same by (simp add: drop_map take_map flip: map_append)
  have len1: "int (length new_lines1) = new_line m" using nlt op nl by (simp add: nl1)
  have inv1: "loop_inv ?ltw (old_line m) new_lines1 words" using copy_until_inv[OF Cons.prems(4) c] .
  from remove_until_succeeds[OF inv1, of "old_line m + num_removed m"] olt nn obtain words1 where
    r: "remove_until ?ltw (old_line m + num_removed m) (old_line m) words = Inr (old_line m + num_removed m + 1, words1)"
    by auto
  have inv2: "loop_inv ?ltw (old_line m + num_removed m + 1) new_lines1 words1"
    using inv1 r by (rule remove_until_inv)
  obtain new_lines2 words2 where a: "add_from letter buf m 0 new_lines1 words1 = (new_lines2, words2)"
    by (cases "add_from letter buf m 0 new_lines1 words1")
  have inv3: "loop_inv ?ltw (old_line m + num_removed m + 1) new_lines2 words2"
    using inv2 a by (rule add_from_inv)
  let ?hi = "min (new_line m + num_added m) (int (length new) - 1)"
  have n0: "0 \<le> new_line m" using op nl by simp
  have "new_lines2 = new_lines1 @ map (\<lambda>i. get_words letter (new ! nat i)) [new_line m..?hi]"
    using add_from_lines[of m 0 letter buf new_lines1 words1] a n0 Cons.prems(3)
    by (simp add: line_count_def buf_line_def)
  also have "map (\<lambda>i. get_words letter (new ! nat i)) [new_line m..?hi] = map (get_words letter) (map (\<lambda>i. new ! nat i) [new_line m..?hi])"
    by simp
  also have "map (\<lambda>i. new ! nat i) [new_line m..?hi] = take (nat (?hi + 1 - new_line m)) (drop (nat (new_line m)) new)"
    using n0 by (intro nth_range) auto
  finally have "new_lines2 = map (get_words letter) (take (nat (new_line m)) new @ take (nat (?hi + 1 - new_line m)) (drop (nat (new_line m)) new))"
    by (simp add: nl1)
  also have "take (nat (new_line m)) new @ take (nat (?hi + 1 - new_line m)) (drop (nat (new_line m)) new)
             = take (nat (?hi + 1)) new"
  proof -
    have "nat (?hi + 1) = nat (new_line m) + nat (?hi + 1 - new_line m)" using n0 nn nlt by (simp add: min_def; intro conjI impI; linarith)
    then show ?thesis by (simp add: take_add)
  qed
  also have "take (nat (?hi + 1)) new = take (nat (new_line m + num_added m + 1)) new"
    by (cases "new_line m + num_added m \<le> int (length new) - 1") (simp_all add: min_def)
  finally have nl2: "new_lines2 = map (get_words letter) (take (nat (new_line m + num_added m + 1)) new)" .
  have le: "old_line m + num_removed m + 1 \<le> int (length old)" using olt by simp
  from Cons.IH[OF rest le Cons.prems(3) inv3 nl2] obtain old_l' new_lines' words' where
    u: "update_modifs letter buf ?ltw ms (old_line m + num_removed m + 1) new_lines2 words2 = Inr (old_l', new_lines', words')"
    and res: "0 \<le> old_l'" "old_l' \<le> int (length old)" "new_lines' @ drop (nat old_l') ?ltw = map (get_words letter) new"
    by blast
  have "update_modifs letter buf ?ltw (m # ms) op new_lines words = Inr (old_l', new_lines', words')"
    using c len1 r a u op n0 nlt Cons.prems(3) by (simp add: line_count_def)
  then show ?case using res by blast
qed

lemma update_db_rebuilds:
  assumes lines: "m_line_to_words db = map (get_words letter) old"
    and inv: "db_invariant db"
    and valid: "modifs_between old (buf_lines buf) 0 0 (changes_since buf (m_timestamp db))"
  shows "update_db letter buf db = Inr (new_WordDB letter buf)"
proof -
  let ?ltw = "map (get_words letter) old"
  have "\<exists>db'. update_db letter buf db = Inr db' \<and> m_line_to_words db' = map (get_words letter) (buf_lines buf)"
  proof (cases "changes_since buf (m_timestamp db) = []")
    case True
    then have "old = buf_lines buf" using valid by simp
    then show ?thesis using True lines by (simp add: update_db_def)
  next
    case False
    have "loop_inv ?ltw 0 [] (m_words db)"
      using inv lines by (simp add: loop_inv_def db_invariant_def wl_ok_def)
    from update_modifs_walk[OF valid _ refl this] obtain old_l' new_lines' words' where
      u: "update_modifs letter buf ?ltw (changes_since buf (m_timestamp db)) 0 [] (m_words db) = Inr (old_l', new_lines', words')"
      and res: "0 \<le> old_l'" "old_l' \<le> int (length old)" "new_lines' @ drop (nat old_l') ?ltw = map (get_words letter) (buf_lines buf)"
      by auto
    have "copy_until ?ltw (int (length ?ltw)) old_l' new_lines' =
          Inr (int (length ?ltw), new_lines' @ take (nat (int (length ?ltw) - old_l')) (drop (nat old_l') ?ltw))"
      using res by (intro copy_until_eq) auto
    then have c: "copy_until ?ltw (int (length ?ltw)) old_l' new_lines' = Inr (int (length ?ltw), map (get_words letter) (buf_lines buf))"
      using res by simp
    show ?thesis using False u res(2) c lines by (simp add: update_db_def)
  qed
  then obtain db' where u: "update_db letter buf db = Inr db'"
    and l: "m_line_to_words db' = map (get_words letter) (buf_lines buf)" by blast
  have "db_invariant db'" using inv u by (rule update_db_invariant)
  moreover have "m_timestamp db' = timestamp buf" using u by (rule update_db_timestamp)
  ultimately have "db' = new_WordDB letter buf"
    using l new_WordDB_lines[of letter buf] new_WordDB_invariant[of letter buf] by (intro db_unique) auto
  then show ?thesis using u by simp
qed

text \<open>
  C8 (as amended): \<open>find_prefix\<close> and \<open>find_subsequence\<close> first run \<open>update_db\<close>, which
  fetches the line modifications since the stored timestamp, stores the timestamp of the
  buffer, returns directly when there are none and otherwise applies them; they answer
  from the map it leaves. When the database holds the words of the earlier lines and the
  modifications describe the change, both return, and the database they leave is the one
  the constructor builds from the buffer. \<open>get_word_occurences\<close> does not bring the
  database up to date: it answers from the stored map, the counts of the lines as the
  database last saw them.
\<close>

theorem queries_update_first:
  "(find_prefix letter buf db pre = Inr (db', res) \<longrightarrow>
      update_db letter buf db = Inr db' \<and> m_timestamp db' = timestamp buf \<and>
      res = takeWhile (\<lambda>k. prefix_match k pre) (dropWhile (\<lambda>k. k < pre) (map fst (m_words db'))))
   \<and> (find_subsequence letter buf db subsequence = Inr (db', res') \<longrightarrow>
      update_db letter buf db = Inr db' \<and> m_timestamp db' = timestamp buf \<and>
      res' = filter (\<lambda>k. subsequence_match k subsequence) (map fst (m_words db')))
   \<and> (changes_since buf (m_timestamp db) = [] \<longrightarrow>
      update_db letter buf db = Inr (db\<lparr>m_timestamp := timestamp buf\<rparr>))
   \<and> (db_invariant db \<longrightarrow>
      get_word_occurences db w = int (count_list (concat (m_line_to_words db)) w))
   \<and> (m_line_to_words db = map (get_words letter) earlier \<and> db_invariant db \<and>
       modifs_between earlier (buf_lines buf) 0 0 (changes_since buf (m_timestamp db)) \<longrightarrow>
      find_prefix letter buf db pre =
        Inr (new_WordDB letter buf, takeWhile (\<lambda>k. prefix_match k pre)
                               (dropWhile (\<lambda>k. k < pre) (map fst (m_words (new_WordDB letter buf)))))
      \<and> find_subsequence letter buf db subsequence =
        Inr (new_WordDB letter buf, filter (\<lambda>k. subsequence_match k subsequence)
                               (map fst (m_words (new_WordDB letter buf)))))"
proof (intro conjI impI)
  assume "find_prefix letter buf db pre = Inr (db', res)"
  then have u: "update_db letter buf db = Inr db'"
    and r: "res = takeWhile (\<lambda>k. prefix_match k pre) (dropWhile (\<lambda>k. k < pre) (map fst (m_words db')))"
    by (auto simp: find_prefix_def split: sum.splits)
  show "update_db letter buf db = Inr db'" by (rule u)
  show "m_timestamp db' = timestamp buf" using u by (rule update_db_timestamp)
  show "res = takeWhile (\<lambda>k. prefix_match k pre) (dropWhile (\<lambda>k. k < pre) (map fst (m_words db')))"
    by (rule r)
next
  assume "find_subsequence letter buf db subsequence = Inr (db', res')"
  then have u: "update_db letter buf db = Inr db'"
    and r: "res' = filter (\<lambda>k. subsequence_match k subsequence) (map fst (m_words db'))"
    by (auto simp: find_subsequence_def split: sum.splits)
  show "update_db letter buf db = Inr db'" by (rule u)
  show "m_timestamp db' = timestamp buf" using u by (rule update_db_timestamp)
  show "res' = filter (\<lambda>k. subsequence_match k subsequence) (map fst (m_words db'))" by (rule r)
next
  assume "changes_since buf (m_timestamp db) = []"
  then show "update_db letter buf db = Inr (db\<lparr>m_timestamp := timestamp buf\<rparr>)"
    by (simp add: update_db_def)
next
  assume inv: "db_invariant db"
  then have "get_word_occurences db w = int (count (wl_mset (m_words db)) w)"
    unfolding get_word_occurences_def db_invariant_def by (intro wl_count) auto
  then show "get_word_occurences db w = int (count_list (concat (m_line_to_words db)) w)"
    using inv by (simp add: db_invariant_def count_mset)
next
  assume a: "m_line_to_words db = map (get_words letter) earlier \<and> db_invariant db \<and>
       modifs_between earlier (buf_lines buf) 0 0 (changes_since buf (m_timestamp db))"
  then have u: "update_db letter buf db = Inr (new_WordDB letter buf)" by (intro update_db_rebuilds) auto
  show "find_prefix letter buf db pre =
        Inr (new_WordDB letter buf, takeWhile (\<lambda>k. prefix_match k pre)
                               (dropWhile (\<lambda>k. k < pre) (map fst (m_words (new_WordDB letter buf)))))"
    using u by (simp add: find_prefix_def)
  show "find_subsequence letter buf db subsequence =
        Inr (new_WordDB letter buf, filter (\<lambda>k. subsequence_match k subsequence)
                               (map fst (m_words (new_WordDB letter buf))))"
    using u by (simp add: find_subsequence_def)
qed

lemma find_prefix_example:
  "find_prefix no_letter words_buffer_edited (new_WordDB no_letter words_buffer) ''ba'' = Inr (words_db_edited, [''bar'', ''baz''])"
  by code_simp

lemma find_subsequence_example:
  "find_subsequence no_letter words_buffer_edited (new_WordDB no_letter words_buffer) ''bz'' = Inr (words_db_edited, [''baz''])"
  by code_simp

lemma changes_since_example: "changes_since words_buffer_edited (m_timestamp words_db_edited) = []"
  by code_simp

lemma modifs_between_example:
  "modifs_between (buf_lines words_buffer) (buf_lines words_buffer_edited) 0 0
     (changes_since words_buffer_edited (m_timestamp (new_WordDB no_letter words_buffer)))"
  by code_simp

theorem queries_update_first_witness:
  "find_prefix no_letter words_buffer_edited (new_WordDB no_letter words_buffer) ''ba'' = Inr (words_db_edited, [''bar'', ''baz''])
   \<and> find_subsequence no_letter words_buffer_edited (new_WordDB no_letter words_buffer) ''bz'' = Inr (words_db_edited, [''baz''])
   \<and> update_db no_letter words_buffer_edited (new_WordDB no_letter words_buffer) = Inr words_db_edited
   \<and> m_timestamp words_db_edited = timestamp words_buffer_edited
   \<and> changes_since words_buffer_edited (m_timestamp words_db_edited) = []
   \<and> update_db no_letter words_buffer_edited words_db_edited = Inr (words_db_edited\<lparr>m_timestamp := timestamp words_buffer_edited\<rparr>)
   \<and> db_invariant (new_WordDB no_letter words_buffer)
   \<and> get_word_occurences (new_WordDB no_letter words_buffer) ''foo'' =
       int (count_list (concat (m_line_to_words (new_WordDB no_letter words_buffer))) ''foo'')
   \<and> m_line_to_words (new_WordDB no_letter words_buffer) = map (get_words no_letter) (buf_lines words_buffer)
   \<and> modifs_between (buf_lines words_buffer) (buf_lines words_buffer_edited) 0 0
         (changes_since words_buffer_edited (m_timestamp (new_WordDB no_letter words_buffer)))
   \<and> find_prefix no_letter words_buffer_edited (new_WordDB no_letter words_buffer) ''ba'' =
        Inr (new_WordDB no_letter words_buffer_edited, takeWhile (\<lambda>k. prefix_match k ''ba'')
          (dropWhile (\<lambda>k. k < ''ba'') (map fst (m_words (new_WordDB no_letter words_buffer_edited)))))"
proof -
  note fresh = queries_update_first [of no_letter words_buffer_edited "new_WordDB no_letter words_buffer" "''ba''"
      words_db_edited "[''bar'', ''baz'']" "''bz''" "[''baz'']" "''foo''" "buf_lines words_buffer"]
  note again = queries_update_first [of no_letter words_buffer_edited words_db_edited "''ba''" words_db_edited
      "[''bar'', ''baz'']" "''bz''" "[''baz'']" "''foo''" "buf_lines words_buffer"]
  have inv: "db_invariant (new_WordDB no_letter words_buffer)" by (rule new_WordDB_invariant)
  have ls: "m_line_to_words (new_WordDB no_letter words_buffer) = map (get_words no_letter) (buf_lines words_buffer)"
    using new_WordDB_lines [of no_letter words_buffer] by blast
  from fresh find_prefix_example
  have "update_db no_letter words_buffer_edited (new_WordDB no_letter words_buffer) = Inr words_db_edited
        \<and> m_timestamp words_db_edited = timestamp words_buffer_edited"
    by blast
  moreover from again changes_since_example
  have "update_db no_letter words_buffer_edited words_db_edited =
          Inr (words_db_edited\<lparr>m_timestamp := timestamp words_buffer_edited\<rparr>)"
    by blast
  moreover from fresh inv
  have "get_word_occurences (new_WordDB no_letter words_buffer) ''foo'' =
          int (count_list (concat (m_line_to_words (new_WordDB no_letter words_buffer))) ''foo'')"
    by blast
  moreover from fresh ls inv modifs_between_example
  have "find_prefix no_letter words_buffer_edited (new_WordDB no_letter words_buffer) ''ba'' =
        Inr (new_WordDB no_letter words_buffer_edited, takeWhile (\<lambda>k. prefix_match k ''ba'')
          (dropWhile (\<lambda>k. k < ''ba'') (map fst (m_words (new_WordDB no_letter words_buffer_edited)))))"
    by blast
  ultimately show ?thesis
    using find_prefix_example find_subsequence_example changes_since_example inv ls
      modifs_between_example
    by blast
qed

theorem get_word_occurences_stale_counterexample:
  "m_timestamp (new_WordDB no_letter words_buffer) \<noteq> timestamp words_buffer_edited
   \<and> get_word_occurences (new_WordDB no_letter words_buffer) ''foobar'' = 1
   \<and> update_db no_letter words_buffer_edited (new_WordDB no_letter words_buffer) = Inr words_db_edited
   \<and> get_word_occurences words_db_edited ''foobar'' = 0"
  by code_simp

section \<open>Properties of the regions\<close>


lemma lower_bound_ge: "first \<le> lower_bound first xs cmp"
  by (simp add: lower_bound_def)

lemma lower_bound_le: "first \<le> length xs \<Longrightarrow> lower_bound first xs cmp \<le> length xs"
proof -
  assume "first \<le> length xs"
  moreover have "length (takeWhile cmp (drop first xs)) \<le> length (drop first xs)"
    by (rule length_takeWhile_le)
  ultimately show ?thesis by (simp add: lower_bound_def)
qed

lemma lower_bound_stops:
  assumes "lower_bound first xs cmp < length xs"
  shows "\<not> cmp (xs ! lower_bound first xs cmp)"
proof -
  let ?k = "length (takeWhile cmp (drop first xs))"
  have k: "?k < length (drop first xs)" using assms by (simp add: lower_bound_def)
  then have "\<not> cmp (drop first xs ! ?k)" by (rule nth_length_takeWhile)
  moreover have "drop first xs ! ?k = xs ! (first + ?k)" using k by simp
  ultimately show ?thesis by (simp add: lower_bound_def)
qed

lemma takeWhile_range:
  assumes "k < length (takeWhile Q (drop i xs))"
  shows "i + k < length xs \<and> Q (xs ! (i + k))"
proof -
  have le: "length (takeWhile Q (drop i xs)) \<le> length (drop i xs)" by (rule length_takeWhile_le)
  then have k: "k < length (drop i xs)" using assms by simp
  have "takeWhile Q (drop i xs) ! k \<in> set (takeWhile Q (drop i xs))" using assms by simp
  then have "Q (takeWhile Q (drop i xs) ! k)" by (rule set_takeWhileD[THEN conjunct2])
  moreover have "takeWhile Q (drop i xs) ! k = drop i xs ! k" using assms by (rule takeWhile_nth)
  moreover have "drop i xs ! k = xs ! (i + k)" using k by simp
  ultimately show ?thesis using k by simp
qed

lemma sorted_map_nth_mono:
  assumes "sorted (map f xs)" "i \<le> j" "j < length xs"
  shows "f (xs ! i) \<le> f (xs ! j)"
proof -
  have "map f xs ! i \<le> map f xs ! j" using assms by (intro sorted_nth_mono) auto
  then show ?thesis using assms by simp
qed

lemma find_matching_end_trace_fst:
  "fst (find_matching_end_trace m end_it rec_it recurse_level beg_pos counted consumed) =
     find_matching_end_loop m end_it rec_it recurse_level beg_pos"
proof (induction m end_it rec_it recurse_level beg_pos counted consumed rule: find_matching_end_trace.induct)
  case (1 m end_it rec_it recurse_level beg_pos counted consumed)
  define end_it1 where "end_it1 = lower_bound end_it (end_matches m) (\<lambda>x. compare_to_begin x beg_pos)"
  define rec_it1 where "rec_it1 = lower_bound rec_it (recurse_matches m) (\<lambda>x. compare_to_begin x beg_pos)"
  define n where "n = count_recurse m end_it1 rec_it1"
  show ?case
  proof (cases "end_it1 = length (end_matches m) \<or> recurse_level + n = 0")
    case True
    then show ?thesis
      by (subst find_matching_end_trace.simps, subst find_matching_end_loop.simps)
         (auto simp: Let_def end_it1_def rec_it1_def n_def)
  next
    case False
    then have a: "end_it1 \<noteq> length (end_matches m)" and b: "recurse_level + n \<noteq> 0" by auto
    have ih: "fst (find_matching_end_trace m end_it1 (rec_it1 + n) (recurse_level + n - 1)
                (end_coord (end_matches m ! end_it1)) (counted @ [rec_it1..<rec_it1 + n]) (consumed @ [end_it1])) =
              find_matching_end_loop m end_it1 (rec_it1 + n) (recurse_level + n - 1)
                (end_coord (end_matches m ! end_it1))"
      using 1[OF end_it1_def rec_it1_def a n_def b] .
    have l: "find_matching_end_trace m end_it rec_it recurse_level beg_pos counted consumed =
          find_matching_end_trace m end_it1 (rec_it1 + n) (recurse_level + n - 1)
                (end_coord (end_matches m ! end_it1)) (counted @ [rec_it1..<rec_it1 + n]) (consumed @ [end_it1])"
      using a b by (subst find_matching_end_trace.simps) (auto simp: Let_def end_it1_def rec_it1_def n_def)
    have r: "find_matching_end_loop m end_it rec_it recurse_level beg_pos =
          find_matching_end_loop m end_it1 (rec_it1 + n) (recurse_level + n - 1)
                (end_coord (end_matches m ! end_it1))"
      using a b by (subst find_matching_end_loop.simps) (auto simp: Let_def end_it1_def rec_it1_def n_def)
    show ?thesis unfolding l r by (rule ih)
  qed
qed

lemma begin_le_end_coord: "match_begin x \<le> match_end x \<Longrightarrow> begin_coord x \<le> end_coord x"
  by (simp add: begin_coord_def end_coord_def)

lemma counted_for_Cons:
  "counted_for m b (c # cs) =
     gap_recurse m b (begin_coord (end_matches m ! c)) # counted_for m (end_coord (end_matches m ! c)) cs"
  by (simp add: counted_for_def)

lemma lower_bound_first_from:
  assumes "end_it \<le> length xs" and "\<forall>i<end_it. begin_coord (xs ! i) < pos"
  shows "lower_bound end_it xs (\<lambda>x. compare_to_begin x pos) = first_from xs pos"
proof -
  let ?P = "\<lambda>x. begin_coord x < pos"
  have "\<forall>x\<in>set (take end_it xs). ?P x"
    using assms by (auto simp: in_set_conv_nth)
  then have "takeWhile ?P (take end_it xs @ drop end_it xs) = take end_it xs @ takeWhile ?P (drop end_it xs)"
    by (intro takeWhile_append2) auto
  then have "length (takeWhile ?P xs) = end_it + length (takeWhile ?P (drop end_it xs))"
    using assms(1) by simp
  then show ?thesis by (simp add: lower_bound_def first_from_def compare_to_begin_def)
qed

lemma lower_bound_before:
  assumes "\<forall>i<first. cmp (xs ! i)" and "i < lower_bound first xs cmp" and "first \<le> length xs"
  shows "cmp (xs ! i)"
proof (cases "i < first")
  case True
  then show ?thesis using assms(1) by simp
next
  case False
  then obtain k where k: "i = first + k" by (auto simp: not_less le_iff_add)
  then have "k < length (takeWhile cmp (drop first xs))" using assms(2) by (simp add: lower_bound_def)
  from takeWhile_range[OF this] show ?thesis using k by simp
qed

lemma filter_upt_interval:
  assumes "a \<le> b" "b \<le> n" and "\<And>i. i < n \<Longrightarrow> Q i \<longleftrightarrow> a \<le> i \<and> i < b"
  shows "filter Q [0..<n] = [a..<b]"
proof -
  have "[0..<n] = [0..<a] @ [a..<b] @ [b..<n]"
  proof -
    have "[a..<n] = [a..<b] @ [b..<n]"
      using assms(1,2) upt_add_eq_append[of a b "n - b"] by simp
    moreover have "[0..<n] = [0..<a] @ [a..<n]"
      using assms(1,2) upt_add_eq_append[of 0 a "n - a"] by simp
    ultimately show ?thesis by simp
  qed
  moreover have "filter Q [0..<a] = []" using assms by (auto simp: filter_empty_conv)
  moreover have "filter Q [b..<n] = []" using assms by (auto simp: filter_empty_conv)
  moreover have "filter Q [a..<b] = [a..<b]" using assms by (auto simp: filter_id_conv)
  ultimately show ?thesis by simp
qed

lemma find_matching_end_trace_spec:
  "sorted (map begin_coord (recurse_matches m)) \<Longrightarrow>
   sorted (map end_coord (recurse_matches m)) \<Longrightarrow>
   \<forall>x\<in>set (end_matches m). match_begin x \<le> match_end x \<Longrightarrow>
   \<forall>x\<in>set (recurse_matches m). match_begin x \<le> match_end x \<Longrightarrow>
   end_it \<le> length (end_matches m) \<Longrightarrow> rec_it \<le> length (recurse_matches m) \<Longrightarrow>
   \<forall>i<end_it. begin_coord (end_matches m ! i) < beg_pos \<Longrightarrow>
   \<forall>i<rec_it. begin_coord (recurse_matches m ! i) < beg_pos \<Longrightarrow>
   find_matching_end_trace m end_it rec_it recurse_level beg_pos counted consumed = (e, counted', consumed') \<Longrightarrow>
   e < length (end_matches m) \<Longrightarrow>
   \<exists>nc ns. counted' = counted @ nc \<and> consumed' = consumed @ ns \<and>
      nc = concat (counted_for m beg_pos (ns @ [e])) \<and>
      recurse_level + length nc = length ns \<and>
      (\<forall>j<Suc (length ns). (ns @ [e]) ! j = first_from (end_matches m) (resume m beg_pos (ns @ [e]) ! j)) \<and>
      (\<forall>j<length ns. j < recurse_level + length (concat (take (Suc j) (counted_for m beg_pos (ns @ [e])))))"
proof (induction m end_it rec_it recurse_level beg_pos counted consumed arbitrary: e counted' consumed'
       rule: find_matching_end_trace.induct)
  case (1 m end_it rec_it recurse_level beg_pos counted consumed)
  note sb = 1(2) and se = 1(3) and wfe = 1(4) and wfr = 1(5) and le = 1(6) and lr = 1(7)
    and pre_e = 1(8) and pre_r = 1(9) and run = 1(10) and elt = 1(11)
  let ?ends = "end_matches m" and ?recs = "recurse_matches m"
  define end_it1 where "end_it1 = lower_bound end_it ?ends (\<lambda>x. compare_to_begin x beg_pos)"
  define rec_it1 where "rec_it1 = lower_bound rec_it ?recs (\<lambda>x. compare_to_begin x beg_pos)"
  define n where "n = count_recurse m end_it1 rec_it1"
  have le1: "end_it1 \<le> length ?ends" unfolding end_it1_def using le by (rule lower_bound_le)
  have lr1: "rec_it1 \<le> length ?recs" unfolding rec_it1_def using lr by (rule lower_bound_le)
  have ff: "end_it1 = first_from ?ends beg_pos"
    unfolding end_it1_def using le pre_e by (rule lower_bound_first_from)
  have before_e: "begin_coord (?ends ! i) < beg_pos" if "i < end_it1" for i
    using lower_bound_before[of end_it "\<lambda>x. compare_to_begin x beg_pos" ?ends i] pre_e that le
    by (simp add: end_it1_def compare_to_begin_def)
  have before_r: "begin_coord (?recs ! i) < beg_pos" if "i < rec_it1" for i
    using lower_bound_before[of rec_it "\<lambda>x. compare_to_begin x beg_pos" ?recs i] pre_r that lr
    by (simp add: rec_it1_def compare_to_begin_def)
  have ne: "end_it1 \<noteq> length ?ends"
  proof
    assume "end_it1 = length ?ends"
    then have "(e, counted', consumed') = (end_it1, counted, consumed)"
      using run by (subst (asm) find_matching_end_trace.simps) (simp add: Let_def end_it1_def)
    then show False using elt \<open>end_it1 = length ?ends\<close> by simp
  qed
  then have lt: "end_it1 < length ?ends" using le1 by simp
  let ?cbeg = "begin_coord (?ends ! end_it1)" and ?cend = "end_coord (?ends ! end_it1)"
  have stop_e: "beg_pos \<le> ?cbeg"
    using lower_bound_stops[of end_it ?ends "\<lambda>x. compare_to_begin x beg_pos"] lt
    by (simp add: end_it1_def compare_to_begin_def not_less)
  have cbe: "?cbeg \<le> ?cend" using wfe lt by (intro begin_le_end_coord) auto
  have n_le: "rec_it1 + n \<le> length ?recs"
  proof -
    have "n \<le> length (drop rec_it1 ?recs)" unfolding n_def count_recurse_def by (rule length_takeWhile_le)
    then show ?thesis using lr1 by simp
  qed
  have cnt: "end_coord (?recs ! i) < ?cbeg" if a: "rec_it1 \<le> i" "i < rec_it1 + n" for i
  proof -
    obtain k where k: "i = rec_it1 + k" "k < n" using a by (auto simp: le_iff_add)
    from takeWhile_range[of k "\<lambda>r. end_coord r < ?cbeg" rec_it1 ?recs] k show ?thesis
      by (simp add: n_def count_recurse_def)
  qed
  have from_r: "beg_pos \<le> begin_coord (?recs ! i)" if "rec_it1 \<le> i" "i < length ?recs" for i
  proof -
    have "rec_it1 < length ?recs" using that by simp
    then have "beg_pos \<le> begin_coord (?recs ! rec_it1)"
      using lower_bound_stops[of rec_it ?recs "\<lambda>x. compare_to_begin x beg_pos"]
      by (simp add: rec_it1_def compare_to_begin_def not_less)
    also have "\<dots> \<le> begin_coord (?recs ! i)" using sorted_map_nth_mono[OF sb that] .
    finally show ?thesis .
  qed
  have after: "\<not> end_coord (?recs ! i) < ?cbeg" if "rec_it1 + n \<le> i" "i < length ?recs" for i
  proof -
    have lt_n: "rec_it1 + n < length ?recs" using that by simp
    then have "n < length (drop rec_it1 ?recs)" by simp
    then have "\<not> end_coord (drop rec_it1 ?recs ! n) < ?cbeg"
      unfolding n_def count_recurse_def by (rule nth_length_takeWhile)
    then have "?cbeg \<le> end_coord (?recs ! (rec_it1 + n))" using lt_n by (simp add: not_less)
    also have "\<dots> \<le> end_coord (?recs ! i)" using sorted_map_nth_mono[OF se that] .
    finally show ?thesis by (simp add: not_less)
  qed
  have gap: "gap_recurse m beg_pos ?cbeg = [rec_it1..<rec_it1 + n]"
    unfolding gap_recurse_def
  proof (rule filter_upt_interval)
    show "rec_it1 \<le> rec_it1 + n" by simp
    show "rec_it1 + n \<le> length ?recs" by (rule n_le)
    fix i assume i: "i < length ?recs"
    show "(beg_pos \<le> begin_coord (?recs ! i) \<and> end_coord (?recs ! i) < ?cbeg) = (rec_it1 \<le> i \<and> i < rec_it1 + n)"
      using before_r[of i] cnt[of i] from_r[of i] after[of i] i
      by (cases "i < rec_it1"; cases "rec_it1 + n \<le> i") (auto simp: not_less not_le)
  qed
  show ?case
  proof (cases "recurse_level + n = 0")
    case True
    then have "(e, counted', consumed') = (end_it1, counted @ [rec_it1..<rec_it1 + n], consumed)"
      using run lt by (subst (asm) find_matching_end_trace.simps)
        (auto simp: Let_def end_it1_def rec_it1_def n_def)
    then have e: "e = end_it1" and c: "counted' = counted @ []" and s: "consumed' = consumed @ []"
      using True by simp_all
    have "counted_for m beg_pos [e] = [[]]" using gap True e by (simp add: counted_for_Cons counted_for_def)
    then show ?thesis using e c s True ff by (intro exI[of _ "[]"]) simp
  next
    case False
    have rec: "find_matching_end_trace m end_it1 (rec_it1 + n) (recurse_level + n - 1) ?cend
                 (counted @ [rec_it1..<rec_it1 + n]) (consumed @ [end_it1]) = (e, counted', consumed')"
      using run lt False by (subst (asm) find_matching_end_trace.simps)
        (auto simp: Let_def end_it1_def rec_it1_def n_def)
    have pre_e': "\<forall>i<end_it1. begin_coord (?ends ! i) < ?cend"
      using before_e stop_e cbe by (meson less_le_trans)
    have pre_r': "\<forall>i<rec_it1 + n. begin_coord (?recs ! i) < ?cend"
    proof (intro allI impI)
      fix i assume i: "i < rec_it1 + n"
      show "begin_coord (?recs ! i) < ?cend"
      proof (cases "i < rec_it1")
        case True
        then show ?thesis using before_r[of i] stop_e cbe by simp
      next
        case False
        then have a: "end_coord (?recs ! i) < ?cbeg" using cnt[of i] i by simp
        have "?recs ! i \<in> set ?recs" using i n_le by simp
        then have "begin_coord (?recs ! i) \<le> end_coord (?recs ! i)" using wfr by (intro begin_le_end_coord) auto
        then show ?thesis using a cbe by simp
      qed
    qed
    from 1(1)[OF end_it1_def rec_it1_def ne n_def False sb se wfe wfr le1 n_le pre_e' pre_r' rec elt]
    obtain nc ns where
      c: "counted' = (counted @ [rec_it1..<rec_it1 + n]) @ nc" and s: "consumed' = (consumed @ [end_it1]) @ ns"
      and nc: "nc = concat (counted_for m ?cend (ns @ [e]))"
      and lv: "recurse_level + n - 1 + length nc = length ns"
      and cd: "\<forall>j<Suc (length ns). (ns @ [e]) ! j = first_from ?ends (resume m ?cend (ns @ [e]) ! j)"
      and pos: "\<forall>j<length ns. j < recurse_level + n - 1 + length (concat (take (Suc j) (counted_for m ?cend (ns @ [e]))))"
      by blast
    let ?nc = "[rec_it1..<rec_it1 + n] @ nc" and ?ns = "end_it1 # ns"
    have cf: "counted_for m beg_pos (end_it1 # ns @ [e]) = [rec_it1..<rec_it1 + n] # counted_for m ?cend (ns @ [e])"
      using gap by (simp add: counted_for_Cons)
    show ?thesis
    proof (rule exI[of _ ?nc], rule exI[of _ ?ns], intro conjI)
      show "counted' = counted @ ?nc" using c by simp
      show "consumed' = consumed @ ?ns" using s by simp
      show "?nc = concat (counted_for m beg_pos (?ns @ [e]))" using cf nc by simp
      show "recurse_level + length ?nc = length ?ns" using lv False by (simp, arith)
      show "\<forall>j<Suc (length ?ns). (?ns @ [e]) ! j = first_from ?ends (resume m beg_pos (?ns @ [e]) ! j)"
      proof (intro allI impI)
        fix j assume j: "j < Suc (length ?ns)"
        show "(?ns @ [e]) ! j = first_from ?ends (resume m beg_pos (?ns @ [e]) ! j)"
        proof (cases j)
          case 0
          then show ?thesis using ff by simp
        next
          case (Suc j')
          then show ?thesis using cd j by simp
        qed
      qed
      show "\<forall>j<length ?ns. j < recurse_level + length (concat (take (Suc j) (counted_for m beg_pos (?ns @ [e]))))"
      proof (intro allI impI)
        fix j assume j: "j < length ?ns"
        show "j < recurse_level + length (concat (take (Suc j) (counted_for m beg_pos (?ns @ [e]))))"
        proof (cases j)
          case 0
          then show ?thesis using False by (simp add: cf)
        next
          case (Suc j')
          then have "j' < length ns" using j by simp
          with pos have "j' < recurse_level + n - 1 + length (concat (take (Suc j') (counted_for m ?cend (ns @ [e]))))"
            by simp
          then show ?thesis using False Suc by (simp add: cf; arith)
        qed
      qed
    qed
  qed
qed

text \<open>
  C5 (as amended): when \<open>find_matching_end\<close> returns an end match \<open>e\<close>, the recurse
  matches it has counted are as many as the end matches it has consumed before \<open>e\<close>.
  The candidates (the consumed end matches, then \<open>e\<close>) are each the first end match
  that begins at or after the coordinate the search resumed from: the start coordinate
  \<open>b\<close>, then the end of the previous candidate. The counted recurse matches are, for each
  candidate in turn, exactly the recurse matches that begin at or after that coordinate
  and end before the candidate begins; every candidate but \<open>e\<close> is reached with more
  recurse matches counted than end matches consumed. The matches are as a regex iterator
  gives them: sorted, none ending before it begins, the recurse matches not overlapping.
\<close>

theorem find_matching_end_counts:
  assumes "sorted (map begin_coord (end_matches m))"
    and "sorted (map begin_coord (recurse_matches m))"
    and "sorted (map end_coord (recurse_matches m))"
    and "\<forall>x\<in>set (end_matches m). match_begin x \<le> match_end x"
    and "\<forall>x\<in>set (recurse_matches m). match_begin x \<le> match_end x"
    and "find_matching_end_trace m 0 0 0 b [] [] = (e, counted, consumed)"
    and "e < length (end_matches m)"
  shows "e = find_matching_end m b \<and>
         length counted = length consumed \<and>
         counted = concat (counted_for m b (consumed @ [e])) \<and>
         (\<forall>j<Suc (length consumed).
            (consumed @ [e]) ! j = first_from (end_matches m) (resume m b (consumed @ [e]) ! j)) \<and>
         (\<forall>j<length consumed.
            j < length (concat (take (Suc j) (counted_for m b (consumed @ [e])))))"
proof -
  have "e = fst (find_matching_end_trace m 0 0 0 b [] [])" using assms(6) by simp
  then have 1: "e = find_matching_end m b"
    by (simp add: find_matching_end_trace_fst find_matching_end_def)
  have p1: "0 \<le> length (end_matches m)" and p2: "0 \<le> length (recurse_matches m)"
    and p3: "\<forall>i<0. begin_coord (end_matches m ! i) < b"
    and p4: "\<forall>i<0. begin_coord (recurse_matches m ! i) < b"
    by simp_all
  from find_matching_end_trace_spec[OF assms(2-5) p1 p2 p3 p4 assms(6,7)]
  obtain nc ns where a: "counted = [] @ nc" "consumed = [] @ ns"
    and c: "nc = concat (counted_for m b (ns @ [e]))"
    and l: "0 + length nc = length ns"
    and f: "\<forall>j<Suc (length ns). (ns @ [e]) ! j = first_from (end_matches m) (resume m b (ns @ [e]) ! j)"
    and g: "\<forall>j<length ns. j < 0 + length (concat (take (Suc j) (counted_for m b (ns @ [e]))))"
    by blast
  have nc: "nc = counted" and ns: "ns = consumed" using a by simp_all
  show ?thesis using 1 c l f g unfolding nc ns add_0 by blast
qed

lemma if_matches_trace: "find_matching_end_trace if_matches 0 0 0 (0, 2) [] [] = (1, [1], [0])"
  by code_simp

theorem find_matching_end_counts_witness:
  "find_matching_end_trace if_matches 0 0 0 (0, 2) [] [] = (1, [1], [0]) \<and>
   find_matching_end if_matches (0, 2) = 1 \<and>
   counted_for if_matches (0, 2) [0, 1] = [[1], []] \<and>
   resume if_matches (0, 2) [0, 1] = [(0, 2), (0, 15)] \<and>
   first_from (end_matches if_matches) (0, 2) = 0 \<and>
   first_from (end_matches if_matches) (0, 15) = 1"
proof -
  have h1: "sorted (map begin_coord (end_matches if_matches))" by code_simp
  have h2: "sorted (map begin_coord (recurse_matches if_matches))" by code_simp
  have h3: "sorted (map end_coord (recurse_matches if_matches))" by code_simp
  have h4: "\<forall>x\<in>set (end_matches if_matches). match_begin x \<le> match_end x" by code_simp
  have h5: "\<forall>x\<in>set (recurse_matches if_matches). match_begin x \<le> match_end x" by code_simp
  have h7: "1 < length (end_matches if_matches)" by code_simp
  have r: "resume if_matches (0, 2) [0, 1] = [(0, 2), (0, 15)]" by code_simp
  have c: "counted_for if_matches (0, 2) [0, 1] = [[1], []]" by code_simp
  from find_matching_end_counts [OF h1 h2 h3 h4 h5 if_matches_trace h7]
  have e: "1 = find_matching_end if_matches (0, 2)"
    and f: "\<forall>j<Suc (length [0::nat]).
              ([0] @ [1]) ! j = first_from (end_matches if_matches) (resume if_matches (0, 2) ([0] @ [1]) ! j)"
    by blast+
  have ec: "end_coord (end_matches if_matches ! 0) = (0, 15)" by code_simp
  have "first_from (end_matches if_matches) (0, 2) = 0"
    using f[rule_format, of 0] by simp
  moreover have "first_from (end_matches if_matches) (0, 15) = 1"
    using f[rule_format, of 1] by (simp add: ec)
  ultimately show ?thesis using if_matches_trace e r c by simp
qed

theorem find_matching_end_skips_counterexample:
  "find_matching_end if_matches (0, 2) = 1 \<and>
   find_matching_end_trace if_matches 0 0 0 (0, 2) [] [] = (1, [1], [0]) \<and>
   length (recurse_in if_matches (0, 2) (end_matches if_matches ! 1)) = 2"
  by code_simp


lemma find_matching_end_loop_bounds:
  "\<forall>x\<in>set (end_matches m). match_begin x \<le> match_end x \<Longrightarrow>
   end_it \<le> length (end_matches m) \<Longrightarrow>
   find_matching_end_loop m end_it rec_it recurse_level beg_pos \<le> length (end_matches m) \<and>
   (find_matching_end_loop m end_it rec_it recurse_level beg_pos < length (end_matches m) \<longrightarrow>
      beg_pos \<le> begin_coord (end_matches m ! find_matching_end_loop m end_it rec_it recurse_level beg_pos))"
proof (induction m end_it rec_it recurse_level beg_pos rule: find_matching_end_loop.induct)
  case (1 m end_it rec_it recurse_level beg_pos)
  let ?ends = "end_matches m"
  define end_it1 where "end_it1 = lower_bound end_it ?ends (\<lambda>x. compare_to_begin x beg_pos)"
  define rec_it1 where "rec_it1 = lower_bound rec_it (recurse_matches m) (\<lambda>x. compare_to_begin x beg_pos)"
  define n where "n = count_recurse m end_it1 rec_it1"
  have le1: "end_it1 \<le> length ?ends" unfolding end_it1_def using 1(3) by (rule lower_bound_le)
  have stop_e: "beg_pos \<le> begin_coord (?ends ! end_it1)" if "end_it1 < length ?ends"
    using lower_bound_stops[of end_it ?ends "\<lambda>x. compare_to_begin x beg_pos"] that
    by (simp add: end_it1_def compare_to_begin_def not_less)
  show ?case
  proof (cases "end_it1 = length ?ends \<or> recurse_level + n = 0")
    case True
    then have "find_matching_end_loop m end_it rec_it recurse_level beg_pos = end_it1"
      by (subst find_matching_end_loop.simps) (auto simp: Let_def end_it1_def rec_it1_def n_def)
    then show ?thesis using le1 stop_e by simp
  next
    case False
    then have a: "end_it1 \<noteq> length ?ends" and b: "recurse_level + n \<noteq> 0" by auto
    let ?bp = "end_coord (?ends ! end_it1)"
    have r: "find_matching_end_loop m end_it rec_it recurse_level beg_pos =
          find_matching_end_loop m end_it1 (rec_it1 + n) (recurse_level + n - 1) ?bp"
      using a b by (subst find_matching_end_loop.simps) (auto simp: Let_def end_it1_def rec_it1_def n_def)
    have lt: "end_it1 < length ?ends" using a le1 by simp
    then have "?ends ! end_it1 \<in> set ?ends" by simp
    then have "begin_coord (?ends ! end_it1) \<le> ?bp" using 1(2) by (intro begin_le_end_coord) auto
    then have bp: "beg_pos \<le> ?bp" using stop_e[OF lt] by simp
    from 1(1)[OF end_it1_def rec_it1_def a n_def b 1(2) le1] bp
    show ?thesis unfolding r by auto
  qed
qed

lemma find_matching_end_bounds:
  assumes "\<forall>x\<in>set (end_matches m). match_begin x \<le> match_end x"
  shows "find_matching_end m beg_pos \<le> length (end_matches m)"
    and "find_matching_end m beg_pos \<noteq> length (end_matches m) \<Longrightarrow>
           beg_pos \<le> begin_coord (end_matches m ! find_matching_end m beg_pos)"
  using find_matching_end_loop_bounds[OF assms, of 0 0 0 beg_pos]
  by (auto simp: find_matching_end_def)

lemma find_next_begin_in_props:
  "find_next_begin_in rm pos \<le> length (begin_matches rm)"
  "find_next_begin_in rm pos \<noteq> length (begin_matches rm) \<Longrightarrow>
     pos \<le> begin_coord (begin_matches rm ! find_next_begin_in rm pos)"
proof -
  show le: "find_next_begin_in rm pos \<le> length (begin_matches rm)"
    unfolding find_next_begin_in_def by (rule lower_bound_le) simp
  assume "find_next_begin_in rm pos \<noteq> length (begin_matches rm)"
  then have "find_next_begin_in rm pos < length (begin_matches rm)" using le by simp
  then show "pos \<le> begin_coord (begin_matches rm ! find_next_begin_in rm pos)"
    using lower_bound_stops[of 0 "begin_matches rm" "\<lambda>x. compare_to_begin x pos"]
    by (simp add: find_next_begin_in_def compare_to_begin_def not_less)
qed

lemma find_next_begin_props:
  assumes "cache_matches \<noteq> []"
  shows "find_next_begin cache_matches pos = (0, length (begin_matches (cache_matches ! 0))) \<or>
         (at_match cache_matches (find_next_begin cache_matches pos) \<and>
          pos \<le> begin_coord (begin_matches (cache_matches ! fst (find_next_begin cache_matches pos)) !
                              snd (find_next_begin cache_matches pos)))"
proof -
  let ?P = "\<lambda>res. res = (0, length (begin_matches (cache_matches ! 0))) \<or>
         (at_match cache_matches res \<and>
          pos \<le> begin_coord (begin_matches (cache_matches ! fst res) ! snd res))"
  let ?step = "\<lambda>i res.
             let matches = cache_matches ! i;
                 it = find_next_begin_in matches pos
             in if it \<noteq> length (begin_matches matches) \<and>
                   (snd res = length (begin_matches (cache_matches ! fst res)) \<or>
                    begin_coord (begin_matches matches ! it) <
                      begin_coord (begin_matches (cache_matches ! fst res) ! snd res))
                then (i, it) else res"
  have step: "?P (?step i res)" if "?P res" "i < length cache_matches" for i res
  proof (cases "?step i res = res")
    case True
    then show ?thesis using that by simp
  next
    case False
    then have eq: "?step i res = (i, find_next_begin_in (cache_matches ! i) pos)"
      and ne: "find_next_begin_in (cache_matches ! i) pos \<noteq> length (begin_matches (cache_matches ! i))"
      by (auto simp: Let_def split: if_splits)
    have "find_next_begin_in (cache_matches ! i) pos < length (begin_matches (cache_matches ! i))"
      using ne find_next_begin_in_props(1)[of "cache_matches ! i" pos] by simp
    then show ?thesis
      unfolding eq using that(2) find_next_begin_in_props(2)[OF ne] by (simp add: at_match_def)
  qed
  have fold_inv: "?P (fold ?step is res)" if "?P res" "\<forall>i\<in>set is. i < length cache_matches" for "is" res
    using that
  proof (induction "is" arbitrary: res)
    case Nil
    then show ?case by simp
  next
    case (Cons i "is")
    have "?P (?step i res)" using Cons.prems by (intro step) auto
    then have "?P (fold ?step is (?step i res))" using Cons.prems(2) by (intro Cons.IH) auto
    then show ?case by simp
  qed
  have init: "?P (0, find_next_begin_in (cache_matches ! 0) pos)"
  proof (cases "find_next_begin_in (cache_matches ! 0) pos = length (begin_matches (cache_matches ! 0))")
    case True
    then show ?thesis by simp
  next
    case False
    then have "find_next_begin_in (cache_matches ! 0) pos < length (begin_matches (cache_matches ! 0))"
      using find_next_begin_in_props(1)[of "cache_matches ! 0" pos] by simp
    then show ?thesis using assms find_next_begin_in_props(2)[OF False] by (simp add: at_match_def)
  qed
  have "?P (fold ?step [1..<length cache_matches] (0, find_next_begin_in (cache_matches ! 0) pos))"
    using init by (rule fold_inv) simp
  then show ?thesis unfolding find_next_begin_def .
qed

lemma length_filter_less:
  assumes "\<And>x. P x \<Longrightarrow> Q x" and "x0 \<in> set xs" and "Q x0" and "\<not> P x0"
  shows "length (filter P xs) < length (filter Q xs)"
  using assms(2)
proof (induction xs)
  case Nil
  then show ?case by simp
next
  case (Cons x xs)
  have le: "length (filter P xs) \<le> length (filter Q xs)"
  proof (induction xs)
    case Nil
    then show ?case by simp
  next
    case (Cons y ys)
    then show ?case using assms(1)[of y] by auto
  qed
  show ?case
  proof (cases "x = x0")
    case True
    then show ?thesis using le assms(3,4) by simp
  next
    case False
    then have "length (filter P xs) < length (filter Q xs)" using Cons by simp
    then show ?thesis using assms(1)[of x] by auto
  qed
qed

lemma ahead_decreases:
  assumes am: "at_match cache_matches beg"
    and nxt: "nxt = (0, length (begin_matches (cache_matches ! 0))) \<or>
         (at_match cache_matches nxt \<and>
          pos \<le> begin_coord (begin_matches (cache_matches ! fst nxt) ! snd nxt))"
    and pos: "begin_coord (begin_matches (cache_matches ! fst beg) ! snd beg) < pos"
  shows "ahead cache_matches nxt < ahead cache_matches beg"
proof -
  let ?cur = "begin_matches (cache_matches ! fst beg) ! snd beg"
  let ?all = "concat (map begin_matches cache_matches)"
  have mem: "?cur \<in> set ?all"
    using am by (auto simp: at_match_def intro!: bexI[of _ "cache_matches ! fst beg"])
  have pos_cur: "0 < ahead cache_matches beg"
  proof -
    have "?cur \<in> set (filter (\<lambda>x. begin_coord ?cur \<le> begin_coord x) ?all)" using mem by simp
    then have "0 < length (filter (\<lambda>x. begin_coord ?cur \<le> begin_coord x) ?all)"
      by (rule length_pos_if_in_set)
    then show ?thesis using am by (simp add: ahead_def)
  qed
  show ?thesis
  proof (cases "at_match cache_matches nxt")
    case False
    then show ?thesis using pos_cur by (simp add: ahead_def)
  next
    case True
    let ?n = "begin_matches (cache_matches ! fst nxt) ! snd nxt"
    have "nxt \<noteq> (0, length (begin_matches (cache_matches ! 0)))"
      using True by (auto simp: at_match_def)
    then have ge: "pos \<le> begin_coord ?n" using nxt by simp
    have "length (filter (\<lambda>x. begin_coord ?n \<le> begin_coord x) ?all)
        < length (filter (\<lambda>x. begin_coord ?cur \<le> begin_coord x) ?all)"
    proof (rule length_filter_less[where ?x0.0 = ?cur])
      fix x assume "begin_coord ?n \<le> begin_coord x"
      then show "begin_coord ?cur \<le> begin_coord x" using ge pos by simp
    next
      show "?cur \<in> set ?all" by (rule mem)
      show "begin_coord ?cur \<le> begin_coord ?cur" by simp
      show "\<not> begin_coord ?n \<le> begin_coord ?cur" using ge pos by simp
    qed
    then show ?thesis using True am by (simp add: ahead_def)
  qed
qed

lemma resolve_regions_returns:
  assumes ne: "cache_matches \<noteq> []" and wf: "matches_wf cache_matches"
  shows "beg = (0, length (begin_matches (cache_matches ! 0))) \<or> at_match cache_matches beg \<Longrightarrow>
         \<exists>result. resolve_regions cache_matches names buffer_end beg regions = Some (Inr result)"
proof (induction "ahead cache_matches beg" arbitrary: beg regions rule: less_induct)
  case less
  show ?case
  proof (cases "beg = (0, length (begin_matches (cache_matches ! 0)))")
    case True
    then show ?thesis by (subst resolve_regions.simps) simp
  next
    case False
    then have am: "at_match cache_matches beg" using less.prems by simp
    define matches where "matches = cache_matches ! fst beg"
    define beg_it where "beg_it = begin_matches matches ! snd beg"
    define end_it where "end_it = find_matching_end matches (end_coord beg_it)"
    have m_in: "matches \<in> set cache_matches" using am by (simp add: matches_def at_match_def)
    have b_in: "beg_it \<in> set (begin_matches matches)" using am by (simp add: beg_it_def matches_def at_match_def)
    have wf_e: "\<forall>x\<in>set (end_matches matches). match_begin x \<le> match_end x"
      using wf m_in by (auto simp: matches_wf_def)
    have wf_b: "begin_coord beg_it \<le> end_coord beg_it"
      using wf m_in b_in by (intro begin_le_end_coord) (auto simp: matches_wf_def)
    show ?thesis
    proof (cases "end_it = length (end_matches matches)")
      case True
      then show ?thesis using False
        by (subst resolve_regions.simps) (simp add: Let_def matches_def beg_it_def end_it_def)
    next
      case ne_end: False
      define end_m where "end_m = end_matches matches ! end_it"
      have lt: "end_it < length (end_matches matches)"
        using ne_end find_matching_end_bounds(1)[OF wf_e, of "end_coord beg_it"] by (simp add: end_it_def)
      have ge: "end_coord beg_it \<le> begin_coord end_m"
        using find_matching_end_bounds(2)[OF wf_e, of "end_coord beg_it"] ne_end
        by (simp add: end_it_def end_m_def)
      have "end_m \<in> set (end_matches matches)" using lt by (simp add: end_m_def)
      then have wf_m: "begin_coord end_m \<le> end_coord end_m" using wf_e by (intro begin_le_end_coord) auto
      define pos where "pos = (if end_coord end_m = begin_coord beg_it
                               then (line (end_coord end_m), column (end_coord end_m) + 1)
                               else end_coord end_m)"
      define regions' where "regions' = regions @
                   [\<lparr>region_begin = begin_coord beg_it, region_end = end_coord end_m,
                     group = names ! fst beg\<rparr>]"
      have no_assert: "end_coord end_m = begin_coord beg_it \<Longrightarrow>
                       begin_coord beg_it = end_coord beg_it \<and> begin_coord end_m = end_coord end_m"
        using wf_b ge wf_m by auto
      have unfold: "resolve_regions cache_matches names buffer_end beg regions =
                    resolve_regions cache_matches names buffer_end (find_next_begin cache_matches pos) regions'"
        using False ne_end no_assert
        by (subst resolve_regions.simps)
           (auto simp: Let_def matches_def[symmetric] beg_it_def[symmetric] end_it_def[symmetric]
                       end_m_def[symmetric] pos_def regions'_def)
      have gt: "begin_coord beg_it < pos"
      proof (cases "end_coord end_m = begin_coord beg_it")
        case True
        have "c < (line c, column c + 1)" for c :: ByteCoord by (cases c) simp
        then show ?thesis using True by (simp add: pos_def)
      next
        case False
        moreover have "begin_coord beg_it \<le> end_coord end_m" using wf_b ge wf_m by simp
        ultimately show ?thesis by (simp add: pos_def)
      qed
      let ?nxt = "find_next_begin cache_matches pos"
      have nxt: "?nxt = (0, length (begin_matches (cache_matches ! 0))) \<or>
         (at_match cache_matches ?nxt \<and>
          pos \<le> begin_coord (begin_matches (cache_matches ! fst ?nxt) ! snd ?nxt))"
        using ne by (rule find_next_begin_props)
      have "ahead cache_matches ?nxt < ahead cache_matches beg"
        using am nxt gt unfolding beg_it_def matches_def by (rule ahead_decreases)
      moreover have "?nxt = (0, length (begin_matches (cache_matches ! 0))) \<or> at_match cache_matches ?nxt"
        using nxt by blast
      ultimately have "\<exists>result. resolve_regions cache_matches names buffer_end ?nxt regions' = Some (Inr result)"
        by (rule less.hyps)
      then show ?thesis unfolding unfold .
    qed
  qed
qed

text \<open>
  C4: for match lists in which no match ends before it begins, as a regex gives them, the
  resolution loop returns: it neither runs forever nor fails its assertion. When the end
  found ends where the begin match begins, the search goes on one column further, so
  every round leaves fewer begin matches ahead.
\<close>

theorem resolve_regions_terminates:
  assumes "cache_matches \<noteq> []" and "matches_wf cache_matches"
  shows "\<exists>regions. resolve_regions cache_matches names buffer_end
                      (find_next_begin cache_matches (-1, 0)) [] = Some (Inr regions)"
proof -
  have "find_next_begin cache_matches (-1, 0) = (0, length (begin_matches (cache_matches ! 0))) \<or>
        at_match cache_matches (find_next_begin cache_matches (-1, 0))"
    using find_next_begin_props[OF assms(1), of "(-1, 0)"] by blast
  then show ?thesis by (rule resolve_regions_returns[OF assms])
qed


lemma resolve_regions_example:
  "resolve_regions [empty_matches] [''str''] (1, 0) (find_next_begin [empty_matches] (-1, 0)) [] =
     Some (Inr [\<lparr>region_begin = (0, 1), region_end = (0, 1), group = ''str''\<rparr>,
                \<lparr>region_begin = (0, 2), region_end = (1, 0), group = ''str''\<rparr>])"
  by code_simp

theorem resolve_regions_terminates_witness:
  "[empty_matches] \<noteq> [] \<and> matches_wf [empty_matches] \<and>
   (\<exists>regions. resolve_regions [empty_matches] [''str''] (1, 0)
                 (find_next_begin [empty_matches] (-1, 0)) [] = Some (Inr regions)) \<and>
   resolve_regions [empty_matches] [''str''] (1, 0) (find_next_begin [empty_matches] (-1, 0)) [] =
     Some (Inr [\<lparr>region_begin = (0, 1), region_end = (0, 1), group = ''str''\<rparr>,
                \<lparr>region_begin = (0, 2), region_end = (1, 0), group = ''str''\<rparr>])"
proof -
  have wf: "matches_wf [empty_matches]" by (simp add: matches_wf_def empty_matches_def)
  have ne: "[empty_matches] \<noteq> []" by simp
  show ?thesis
    using resolve_regions_terminates [OF ne wf, of "[''str'']" "(1, 0)"] wf resolve_regions_example
    by simp
qed

lemma parse_regions_step:
  assumes "\<not> (name = [] \<or> b = [] \<or> e = [])" "compile b = Some bm" "compile e = Some em"
    and "r \<noteq> [] \<longrightarrow> compile r \<noteq> None"
  shows "parse_regions compile (name # b # e # r # rest) =
           (case parse_regions compile rest of
              Inl err \<Rightarrow> Inl err
            | Inr regions \<Rightarrow>
                Inr ((name, \<lparr>re_begin = Some bm, re_end = Some em,
                               re_recurse = (if r \<noteq> [] then compile r else None)\<rparr>) # regions))"
proof (cases "r = []")
  case True
  then show ?thesis using assms(1-3) by simp
next
  case False
  then obtain rm where "compile r = Some rm" using assms(4) by auto
  then show ?thesis using False assms(1-3) by (simp cong: sum.case_cong)
qed

lemma parse_regions_bad:
  assumes "name = [] \<or> b = [] \<or> e = [] \<or> compile b = None \<or> compile e = None \<or>
        (r \<noteq> [] \<and> compile r = None)"
  shows "isl (parse_regions compile (name # b # e # r # rest))"
proof (cases "name = [] \<or> b = [] \<or> e = []")
  case True
  then show ?thesis by simp
next
  case False
  note ne = False
  show ?thesis
  proof (cases "compile b")
    case None
    then show ?thesis using ne by simp
  next
    case (Some bm)
    note b = Some
    show ?thesis
    proof (cases "compile e")
      case None
      then show ?thesis using ne b by simp
    next
      case (Some em)
      then have "r \<noteq> []" "compile r = None" using assms ne b by auto
      then show ?thesis using ne b Some by simp
    qed
  qed
qed

lemma parse_regions_fails:
  "length ps mod 4 = 0 \<Longrightarrow>
   isl (parse_regions compile ps) \<longleftrightarrow>
     (\<exists>(name, b, e, r)\<in>set (quads ps).
        name = [] \<or> b = [] \<or> e = [] \<or> compile b = None \<or> compile e = None \<or>
        (r \<noteq> [] \<and> compile r = None))"
proof (induction ps rule: quads.induct)
  case (1 name b e r rest)
  then have l: "length rest mod 4 = 0" by simp
  note ih = 1(1)[OF l]
  show ?case
  proof (cases "name = [] \<or> b = [] \<or> e = [] \<or> compile b = None \<or> compile e = None \<or>
        (r \<noteq> [] \<and> compile r = None)")
    case True
    then have "isl (parse_regions compile (name # b # e # r # rest))" by (rule parse_regions_bad)
    then show ?thesis using True by simp
  next
    case False
    then obtain bm em where c: "compile b = Some bm" "compile e = Some em" by auto
    have ne: "\<not> (name = [] \<or> b = [] \<or> e = [])" and rr: "r \<noteq> [] \<longrightarrow> compile r \<noteq> None"
      using False by auto
    have eq: "isl (parse_regions compile (name # b # e # r # rest)) = isl (parse_regions compile rest)"
      unfolding parse_regions_step[OF ne c rr] by (simp split: sum.splits)
    have q: "(\<exists>(name, b, e, r)\<in>set (quads (name # b # e # r # rest)).
        name = [] \<or> b = [] \<or> e = [] \<or> compile b = None \<or> compile e = None \<or>
        (r \<noteq> [] \<and> compile r = None)) =
      (\<exists>(name, b, e, r)\<in>set (quads rest).
        name = [] \<or> b = [] \<or> e = [] \<or> compile b = None \<or> compile e = None \<or>
        (r \<noteq> [] \<and> compile r = None))"
      using c ne rr by auto
    show ?thesis unfolding eq q by (rule ih)
  qed
qed simp_all

lemma parse_regions_empty:
  "length ps mod 4 = 0 \<Longrightarrow> parse_regions compile ps = Inr regions \<Longrightarrow>
   (regions = [] \<longleftrightarrow> ps = []) \<and> (\<forall>region\<in>set regions. re_begin (snd region) \<noteq> None \<and> re_end (snd region) \<noteq> None)"
proof (induction ps arbitrary: regions rule: quads.induct)
  case (1 name b e r rest)
  then have l: "length rest mod 4 = 0" by simp
  have good: "\<not> (name = [] \<or> b = [] \<or> e = [] \<or> compile b = None \<or> compile e = None \<or>
        (r \<noteq> [] \<and> compile r = None))"
  proof
    assume "name = [] \<or> b = [] \<or> e = [] \<or> compile b = None \<or> compile e = None \<or>
        (r \<noteq> [] \<and> compile r = None)"
    then have "isl (parse_regions compile (name # b # e # r # rest))" by (rule parse_regions_bad)
    then show False using 1(3) by simp
  qed
  then obtain bm em where c: "compile b = Some bm" "compile e = Some em" by auto
  have ne: "\<not> (name = [] \<or> b = [] \<or> e = [])" and rr: "r \<noteq> [] \<longrightarrow> compile r \<noteq> None"
    using good by auto
  from 1(3) obtain regs where p: "parse_regions compile rest = Inr regs"
    and r: "regions = (name, \<lparr>re_begin = Some bm, re_end = Some em,
                               re_recurse = (if r \<noteq> [] then compile r else None)\<rparr>) # regs"
    unfolding parse_regions_step[OF ne c rr] by (auto split: sum.splits)
  from 1(1)[OF l p] show ?case unfolding r by simp
qed simp_all

text \<open>
  C6 (as amended): the constructor of the regions highlighter fails exactly when no region
  is given or the begin or end regex of some region is empty. The factory fails exactly
  when the number of positional parameters is not 1 modulo 4, or no region is defined, or
  some region has an empty group name, begin pattern or end pattern, or a begin, end or
  non-empty recurse pattern that does not compile. An empty recurse pattern is accepted
  and gives a region with no recurse regex.
\<close>

theorem regions_factory_fails_iff:
  "(isl (new_RegionsHighlighter regions default_group) \<longleftrightarrow>
      regions = [] \<or> (\<exists>region\<in>set regions. re_begin (snd region) = None \<or> re_end (snd region) = None))
   \<and> (isl (regions_factory compile positional default_opt) \<longleftrightarrow>
        length positional mod 4 \<noteq> 1 \<or> length positional = 1 \<or>
        (\<exists>(name, b, e, r)\<in>set (quads (tl positional)).
           name = [] \<or> b = [] \<or> e = [] \<or> compile b = None \<or> compile e = None \<or>
           (r \<noteq> [] \<and> compile r = None)))
   \<and> (name \<noteq> [] \<longrightarrow> b \<noteq> [] \<longrightarrow> e \<noteq> [] \<longrightarrow> compile b = Some bm \<longrightarrow> compile e = Some em \<longrightarrow>
        regions_factory compile [ident, name, b, e, []] None =
          Inr (ident, \<lparr>m_regions = [(name, \<lparr>re_begin = Some bm, re_end = Some em, re_recurse = None\<rparr>)],
                    m_default_group = []\<rparr>, [name]))"
proof (intro conjI)
  show "isl (new_RegionsHighlighter regions default_group) \<longleftrightarrow>
      regions = [] \<or> (\<exists>region\<in>set regions. re_begin (snd region) = None \<or> re_end (snd region) = None)"
    by (simp add: new_RegionsHighlighter_def)
next
  show "isl (regions_factory compile positional default_opt) \<longleftrightarrow>
        length positional mod 4 \<noteq> 1 \<or> length positional = 1 \<or>
        (\<exists>(name, b, e, r)\<in>set (quads (tl positional)).
           name = [] \<or> b = [] \<or> e = [] \<or> compile b = None \<or> compile e = None \<or>
           (r \<noteq> [] \<and> compile r = None))"
  proof (cases "length positional mod 4 = 1")
    case False
    then show ?thesis by (simp add: regions_factory_def)
  next
    case True
    then have pos: "positional \<noteq> []" by auto
    have "length positional = Suc (length (tl positional))" using pos by simp
    then have l: "length (tl positional) mod 4 = 0" using True by presburger
    note pf = parse_regions_fails[OF l, of compile]
    show ?thesis
    proof (cases "parse_regions compile (tl positional)")
      case (Inl err)
      then have "isl (regions_factory compile positional default_opt)"
        using True by (simp add: regions_factory_def)
      moreover have "isl (parse_regions compile (tl positional))" using Inl by simp
      ultimately show ?thesis using pf by blast
    next
      case (Inr regs)
      from parse_regions_empty[OF l Inr]
      have e: "regs = [] \<longleftrightarrow> tl positional = []"
        and ok: "\<forall>region\<in>set regs. re_begin (snd region) \<noteq> None \<and> re_end (snd region) \<noteq> None" by auto
      have one: "tl positional = [] \<longleftrightarrow> length positional = 1" using pos by (cases positional) auto
      have "isl (regions_factory compile positional default_opt) \<longleftrightarrow> regs = []"
        using True Inr ok by (auto simp: regions_factory_def new_RegionsHighlighter_def Let_def)
      moreover have "\<not> isl (parse_regions compile (tl positional))" using Inr by simp
      ultimately show ?thesis using pf e one True by blast
    qed
  qed
next
  show "name \<noteq> [] \<longrightarrow> b \<noteq> [] \<longrightarrow> e \<noteq> [] \<longrightarrow> compile b = Some bm \<longrightarrow> compile e = Some em \<longrightarrow>
        regions_factory compile [ident, name, b, e, []] None =
          Inr (ident, \<lparr>m_regions = [(name, \<lparr>re_begin = Some bm, re_end = Some em, re_recurse = None\<rparr>)],
                    m_default_group = []\<rparr>, [name])"
    by (simp add: regions_factory_def new_RegionsHighlighter_def)
qed

theorem regions_factory_fails_iff_witness:
  "isl (new_RegionsHighlighter [] ''default'')
   \<and> isl (regions_factory compile_all [''id'', ''str'', ''a'', [], []] None)
   \<and> regions_factory compile_all [''id'', ''str'', ''a'', ''b'', []] None =
       Inr (''id'', \<lparr>m_regions = [(''str'', \<lparr>re_begin = Some (\<lambda>l. []), re_end = Some (\<lambda>l. []), re_recurse = None\<rparr>)],
                    m_default_group = []\<rparr>, [''str''])"
  using regions_factory_fails_iff [of "[]" "''default''" compile_all "[''id'', ''str'', ''a'', [], []]" None
      "''str''" "''a''" "''b''" "\<lambda>l. []" "\<lambda>l. []" "''id''"]
  by (simp add: compile_all_def)

theorem regions_factory_group_counterexample:
  "isl (regions_factory compile_all [''id'', [], ''a'', ''b'', []] None)
   \<and> \<not> spec_rejects [''id'', [], ''a'', ''b'', []]"
  by (simp add: regions_factory_def spec_rejects_def compile_all_def)

section \<open>Properties of the incremental update\<close>



lemma find_matches_loop_eq:
  "find_matches_loop buf regex l end_line matches =
     matches @ concat (map (line_matches buf regex) [l..end_line - 1])"
proof (induction buf regex l end_line matches rule: find_matches_loop.induct)
  case (1 buf regex l end_line matches)
  show ?case
  proof (cases "l < end_line")
    case True
    then have "[l..end_line - 1] = l # [l + 1..end_line - 1]" by (simp add: upto_rec1)
    then show ?thesis using True 1
      by (subst find_matches_loop.simps) simp
  next
    case False
    then show ?thesis by (subst find_matches_loop.simps) simp
  qed
qed

lemma find_matches_eq:
  "find_matches buf [] regex = concat (map (line_matches buf regex) [0..line_count buf - 1])"
  by (simp add: find_matches_def find_matches_loop_eq)

lemma rescan_lines_eq:
  "0 \<le> l \<Longrightarrow>
   rescan_lines buf regex modif l matches =
     Inr (matches @ concat (map (line_matches buf regex)
                          [l..min (new_line modif + num_added modif) (line_count buf - 1)]))"
proof (induction buf regex modif l matches rule: rescan_lines.induct)
  case (1 buf regex modif l matches)
  let ?hi = "min (new_line modif + num_added modif) (line_count buf - 1)"
  show ?case
  proof (cases "l < new_line modif + num_added modif + 1 \<and> l < line_count buf")
    case True
    then have "l \<le> ?hi" by simp
    then have u: "[l..?hi] = l # [l + 1..?hi]" by (simp add: upto_rec1)
    have "rescan_lines buf regex modif l matches =
          rescan_lines buf regex modif (l + 1) (matches @ line_matches buf regex l)"
      using True 1(2) by (subst rescan_lines.simps) simp
    also have "\<dots> = Inr ((matches @ line_matches buf regex l) @
                 concat (map (line_matches buf regex) [l + 1..?hi]))"
      using 1(1)[OF True] 1(2) by simp
    finally show ?thesis unfolding u by simp
  next
    case False
    then have "new_line modif + num_added modif < l \<or> line_count buf - 1 < l" by linarith
    then have "?hi < l" by (simp add: min_less_iff_disj)
    then have "[l..?hi] = []" by simp
    then show ?thesis using False by (subst rescan_lines.simps) auto
  qed
qed

lemma inplace_merge_Nil2 [simp]: "inplace_merge xs [] = xs"
  by (cases xs) simp_all

lemma inplace_merge_left:
  "\<forall>a\<in>set pre. \<forall>y\<in>set ys. \<not> begin_coord y < begin_coord a \<Longrightarrow>
   inplace_merge (pre @ xs) ys = pre @ inplace_merge xs ys"
proof (induction pre)
  case Nil
  then show ?case by simp
next
  case (Cons a pre)
  show ?case
  proof (cases ys)
    case Nil
    then show ?thesis by simp
  next
    case (Cons y ys')
    then have "\<not> begin_coord y < begin_coord a" using Cons.prems by simp
    then show ?thesis using Cons.IH Cons.prems Cons by simp
  qed
qed

lemma inplace_merge_right:
  "\<forall>b\<in>set pre. \<forall>x\<in>set xs. begin_coord b < begin_coord x \<Longrightarrow>
   inplace_merge xs (pre @ ys) = pre @ inplace_merge xs ys"
proof (induction pre)
  case Nil
  then show ?case by simp
next
  case (Cons b pre)
  show ?case
  proof (cases xs)
    case Nil
    then show ?thesis by simp
  next
    case (Cons x xs')
    then have "begin_coord b < begin_coord x" using Cons.prems by simp
    then show ?thesis using Cons.IH Cons.prems Cons by simp
  qed
qed

lemma set_inplace_merge: "set (inplace_merge xs ys) = set xs \<union> set ys"
  by (induction xs ys rule: inplace_merge.induct) auto

lemma lower_bound_split:
  assumes "\<forall>d\<in>set done. cmp d" and "todo = [] \<or> \<not> cmp (hd todo)"
  shows "lower_bound 0 (done @ todo) cmp = length done"
proof -
  have "takeWhile cmp todo = []" using assms(2) by (cases todo) auto
  then have "takeWhile cmp (done @ todo) = done"
    using assms(1) by (simp add: takeWhile_append2)
  then show ?thesis by (simp add: lower_bound_def)
qed

lemma update_old_append:
  "update_old buf modifs xs = Inr xs' \<Longrightarrow> update_old buf modifs ys = Inr ys' \<Longrightarrow>
   update_old buf modifs (xs @ ys) = Inr (xs' @ ys')"
proof (induction xs arbitrary: xs')
  case Nil
  then show ?case by simp
next
  case (Cons x xs)
  from Cons.prems(1) obtain kept rest where
    k: "update_match buf modifs x = Inr kept" and r: "update_old buf modifs xs = Inr rest"
    and x': "xs' = (case kept of None \<Rightarrow> rest | Some it' \<Rightarrow> it' # rest)"
    by (auto split: sum.splits)
  from Cons.IH[OF r Cons.prems(2)] show ?case using k x' by (simp split: option.splits)
qed

lemma update_old_concat:
  "\<forall>l\<in>set ls. update_old buf modifs (H l) = Inr (K l) \<Longrightarrow>
   update_old buf modifs (concat (map H ls)) = Inr (concat (map K ls))"
proof (induction ls)
  case Nil
  then show ?case by simp
next
  case (Cons l ls)
  have a: "update_old buf modifs (H l) = Inr (K l)" using Cons.prems by simp
  have b: "update_old buf modifs (concat (map H ls)) = Inr (concat (map K ls))"
    using Cons by simp
  show ?case using update_old_append[OF a b] by simp
qed

lemma upto_shift: "map (\<lambda>x. x + c) [a..b] = [a + c..b + c]"
proof (induction a b rule: upto.induct)
  case (1 i j)
  show ?case
  proof (cases "i \<le> j")
    case True
    then have "[i..j] = i # [i + 1..j]" "[i + c..j + c] = (i + c) # [i + c + 1..j + c]"
      by (simp_all add: upto_rec1)
    then show ?thesis using 1[OF True] by (simp add: add.commute add.left_commute)
  next
    case False
    then show ?thesis by simp
  qed
qed

text \<open>One match of the old list, by its place among the modifications.\<close>

lemma update_match_kept:
  assumes split: "modifs = done @ todo"
    and before: "\<forall>d\<in>set done. old_line d < l"
    and after: "todo = [] \<or> l < old_line (hd todo)"
    and clear: "done \<noteq> [] \<longrightarrow> old_line (last done) + num_removed (last done) < l"
    and l': "l' = l + (if done = [] then 0 else diff (last done))"
    and rng: "0 \<le> l'" "l' < line_count buf"
    and pos: "0 \<le> b" "b \<le> e" "e \<le> int (length (buf_line buf l'))"
    and bv: "bytes_valid buf"
  shows "update_match buf modifs
           \<lparr>match_timestamp = ts, match_line = l, match_begin = b, match_end = e\<rparr> =
         Inr (Some \<lparr>match_timestamp = timestamp buf, match_line = l', match_begin = b, match_end = e\<rparr>)"
proof -
  have lb: "lower_bound 0 modifs (\<lambda>c. old_line c < l) = length done"
    unfolding split using before after by (intro lower_bound_split) auto
  have not_at: "\<not> (length done \<noteq> length modifs \<and> old_line (modifs ! length done) = l)"
  proof (cases todo)
    case Nil
    then show ?thesis by (simp add: split)
  next
    case (Cons m ms)
    then have "modifs ! length done = m" by (simp add: split)
    then show ?thesis using after Cons by auto
  qed
  have prev: "modifs ! (length done - 1) = last done" if "done \<noteq> []"
    using that by (simp add: split nth_append last_conv_nth)
  have vb: "is_valid buf (l', b) \<or> int (length (buf_line buf l')) = b"
    using bv rng pos by (cases "b < int (length (buf_line buf l'))") (auto simp: bytes_valid_def)
  have ve: "is_valid buf (l', e) \<or> int (length (buf_line buf l')) = e"
    using bv rng pos by (cases "e < int (length (buf_line buf l'))") (auto simp: bytes_valid_def)
  show ?thesis
  proof (cases "done = []")
    case True
    then show ?thesis
      using lb not_at l' rng vb ve
      by (simp add: update_match_def Let_def begin_coord_def end_coord_def)
  next
    case False
    then show ?thesis
      using lb not_at l' rng vb ve clear prev[OF False]
      by (simp add: update_match_def Let_def begin_coord_def end_coord_def)
  qed
qed

lemma update_match_erased_at:
  assumes split: "modifs = done @ m # ms"
    and before: "\<forall>d\<in>set done. old_line d < l"
    and at: "old_line m = l"
    and that: "match_line it = l"
  shows "update_match buf modifs it = Inr None"
proof -
  have lb: "lower_bound 0 modifs (\<lambda>c. old_line c < match_line it) = length done"
    unfolding split using before at that by (intro lower_bound_split) auto
  have "modifs ! length done = m" by (simp add: split)
  then show ?thesis using lb at that
    by (simp add: update_match_def Let_def split)
qed

lemma update_match_erased_after:
  assumes split: "modifs = done @ todo"
    and before: "\<forall>d\<in>set done. old_line d < l"
    and after: "todo = [] \<or> l < old_line (hd todo)"
    and ne: "done \<noteq> []"
    and inside: "l \<le> old_line (last done) + num_removed (last done)"
    and that: "match_line it = l"
  shows "update_match buf modifs it = Inr None"
proof -
  have lb: "lower_bound 0 modifs (\<lambda>c. old_line c < match_line it) = length done"
    unfolding split using before after that by (intro lower_bound_split) auto
  have not_at: "\<not> (length done \<noteq> length modifs \<and> old_line (modifs ! length done) = l)"
  proof (cases todo)
    case Nil
    then show ?thesis by (simp add: split)
  next
    case (Cons m ms)
    then have "modifs ! length done = m" by (simp add: split)
    then show ?thesis using after Cons by auto
  qed
  have prev: "modifs ! (length done - 1) = last done"
    using ne by (simp add: split nth_append last_conv_nth)
  show ?thesis using lb not_at prev ne inside that
    by (simp add: update_match_def Let_def)
qed

lemma update_old_all:
  "\<forall>x\<in>set xs. update_match buf modifs x = Inr (f x) \<Longrightarrow>
   update_old buf modifs xs = Inr (concat (map (\<lambda>x. case f x of None \<Rightarrow> [] | Some y \<Rightarrow> [y]) xs))"
  by (induction xs) (auto split: option.splits)


lemma line_of_line_matches: "x \<in> set (line_matches buf regex l) \<Longrightarrow> match_line x = l"
  by (auto simp: line_matches_def)

lemma lines_of_range:
  "x \<in> set (concat (map (line_matches buf regex) [lo..hi])) \<Longrightarrow> lo \<le> match_line x \<and> match_line x \<le> hi"
  by (auto dest: line_of_line_matches)

lemma update_old_line_kept:
  assumes split: "modifs = done @ todo"
    and before: "\<forall>d\<in>set done. old_line d < l"
    and after: "todo = [] \<or> l < old_line (hd todo)"
    and clear: "done \<noteq> [] \<longrightarrow> old_line (last done) + num_removed (last done) < l"
    and l': "l' = l + (if done = [] then 0 else diff (last done))"
    and rng: "0 \<le> l'" "l' < line_count buf"
    and same: "buf_line buf l' = buf_line old_buffer l"
    and wf: "matcher_wf regex" and bv: "bytes_valid buf"
  shows "update_old buf modifs (line_matches old_buffer regex l) = Inr (line_matches buf regex l')"
proof -
  let ?f = "\<lambda>x. Some (x\<lparr>match_line := l', match_timestamp := timestamp buf\<rparr>)"
  have each: "\<forall>x\<in>set (line_matches old_buffer regex l). update_match buf modifs x = Inr (?f x)"
  proof
    fix x assume "x \<in> set (line_matches old_buffer regex l)"
    then obtain b e where be: "(b, e) \<in> set (regex (buf_line old_buffer l))"
      and x: "x = \<lparr>match_timestamp = timestamp old_buffer, match_line = l, match_begin = b, match_end = e\<rparr>"
      by (auto simp: line_matches_def)
    have pos: "0 \<le> b" "b \<le> e" "e \<le> int (length (buf_line buf l'))"
      using wf be same by (auto simp: matcher_wf_def)
    show "update_match buf modifs x = Inr (?f x)"
      unfolding x using update_match_kept[OF split before after clear l' rng pos bv] by simp
  qed
  have "update_old buf modifs (line_matches old_buffer regex l) =
        Inr (concat (map (\<lambda>x. case ?f x of None \<Rightarrow> [] | Some y \<Rightarrow> [y]) (line_matches old_buffer regex l)))"
    using each by (rule update_old_all)
  also have "concat (map (\<lambda>x. case ?f x of None \<Rightarrow> [] | Some y \<Rightarrow> [y]) (line_matches old_buffer regex l)) =
             line_matches buf regex l'"
    by (simp add: line_matches_def same comp_def case_prod_unfold concat_map_singleton)
  finally show ?thesis .
qed

lemma update_old_erased:
  assumes "\<forall>x\<in>set xs. update_match buf modifs x = Inr None"
  shows "update_old buf modifs xs = Inr []"
proof -
  have "\<forall>x\<in>set xs. update_match buf modifs x = Inr ((\<lambda>x. None) x)" using assms by simp
  then have "update_old buf modifs xs =
      Inr (concat (map (\<lambda>x. case (\<lambda>x. None) x of None \<Rightarrow> [] | Some y \<Rightarrow> [y]) xs))"
    by (rule update_old_all)
  then show ?thesis by simp
qed

lemma modifs_between_next:
  "modifs_between old new op np ms \<Longrightarrow> ms = [] \<or> op \<le> old_line (hd ms)"
  by (cases ms) auto

lemma walk_rest:
  assumes wf: "matcher_wf regex" and bv: "bytes_valid buf"
    and split: "modifs = done @ []"
    and valid: "modifs_between (buf_lines old_buffer) (buf_lines buf) op np []"
    and inv: "walk_inv done op np"
  shows "update_old buf modifs
           (concat (map (line_matches old_buffer regex) [op..line_count old_buffer - 1])) =
         Inr (concat (map (line_matches buf regex) [np..line_count buf - 1]))"
proof -
  let ?old = "buf_lines old_buffer" and ?new = "buf_lines buf"
  have op: "0 \<le> op" and np: "0 \<le> np" and eqd: "drop (nat op) ?old = drop (nat np) ?new"
    using valid by auto
  have len: "length ?old - nat op = length ?new - nat np"
    using arg_cong[OF eqd, of length] by simp
  have line: "update_old buf modifs (line_matches old_buffer regex l) =
              Inr (line_matches buf regex (l + (np - op)))"
    if l: "l \<in> set [op..line_count old_buffer - 1]" for l
  proof -
    have l1: "op \<le> l" "l < int (length ?old)" using l by (auto simp: line_count_def)
    define k where "k = nat (l - op)"
    have k: "nat op + k = nat l" using l1 op by (simp add: k_def)
    have kl: "k < length ?old - nat op" using l1 op k by linarith
    then have kn: "k < length ?new - nat np" using len by simp
    have "drop (nat op) ?old ! k = ?old ! nat l" using kl k by simp
    moreover have "drop (nat np) ?new ! k = ?new ! (nat np + k)" using kn by simp
    ultimately have same0: "?new ! (nat np + k) = ?old ! nat l" using eqd by simp
    have nl': "nat (l + (np - op)) = nat np + k" using l1 op np by (simp add: k_def)
    have same: "buf_line buf (l + (np - op)) = buf_line old_buffer l"
      using same0 nl' by (simp add: buf_line_def)
    have rng: "0 \<le> l + (np - op)" "l + (np - op) < line_count buf"
      using l1 op np kn nl' by (auto simp: line_count_def)
    show ?thesis
    proof (rule update_old_line_kept[OF split _ _ _ _ rng same wf bv])
      show "\<forall>d\<in>set done. old_line d < l" using inv l1 by (auto simp: walk_inv_def)
      show "[] = [] \<or> l < old_line (hd [])" by simp
      show "done \<noteq> [] \<longrightarrow> old_line (last done) + num_removed (last done) < l"
        using inv l1 by (auto simp: walk_inv_def)
      show "l + (np - op) = l + (if done = [] then 0 else diff (last done))"
        using inv by (simp add: walk_inv_def)
    qed
  qed
  have "update_old buf modifs (concat (map (line_matches old_buffer regex) [op..line_count old_buffer - 1])) =
        Inr (concat (map (\<lambda>l. line_matches buf regex (l + (np - op))) [op..line_count old_buffer - 1]))"
    using line by (intro update_old_concat) simp
  also have "map (\<lambda>l. line_matches buf regex (l + (np - op))) [op..line_count old_buffer - 1] =
             map (line_matches buf regex) (map (\<lambda>l. l + (np - op)) [op..line_count old_buffer - 1])"
    by simp
  also have "map (\<lambda>l. l + (np - op)) [op..line_count old_buffer - 1] =
             [op + (np - op)..line_count old_buffer - 1 + (np - op)]"
    by (rule upto_shift)
  also have "[op + (np - op)..line_count old_buffer - 1 + (np - op)] = [np..line_count buf - 1]"
  proof (cases "op < line_count old_buffer")
    case True
    then have "0 < length ?old - nat op" using op by (simp add: line_count_def)
    then have "int (length ?new) - np = int (length ?old) - op" using len op np by linarith
    then have e: "line_count old_buffer - 1 + (np - op) = line_count buf - 1"
      by (simp add: line_count_def)
    have "op + (np - op) = np" by simp
    then show ?thesis unfolding e by (rule arg_cong2[where f = upto, OF _ refl])
  next
    case False
    then have "length ?old - nat op = 0" using op by (simp add: line_count_def)
    then have "length ?new - nat np = 0" using len by simp
    then have "line_count buf \<le> np" using np by (simp add: line_count_def)
    then show ?thesis using False by simp
  qed
  finally show ?thesis .
qed


lemma walk_segment:
  assumes wf: "matcher_wf regex" and bv: "bytes_valid buf"
    and split: "modifs = done @ m # ms"
    and valid: "modifs_between (buf_lines old_buffer) (buf_lines buf) op np (m # ms)"
    and inv: "walk_inv done op np"
  shows "update_old buf modifs
           (concat (map (line_matches old_buffer regex) [op..old_line m - 1])) =
         Inr (concat (map (line_matches buf regex) [np..new_line m - 1]))"
proof -
  let ?old = "buf_lines old_buffer" and ?new = "buf_lines buf"
  have op: "0 \<le> op" and np: "0 \<le> np" and le: "op \<le> old_line m"
    and nl: "new_line m = np + (old_line m - op)"
    and rm: "0 \<le> num_removed m" and inold: "old_line m + num_removed m < int (length ?old)"
    and innew: "new_line m < int (length ?new)"
    and eqt: "take (nat (old_line m - op)) (drop (nat op) ?old) =
              take (nat (old_line m - op)) (drop (nat np) ?new)"
    using valid by auto
  have line: "update_old buf modifs (line_matches old_buffer regex l) =
              Inr (line_matches buf regex (l + (np - op)))"
    if l: "l \<in> set [op..old_line m - 1]" for l
  proof -
    have l1: "op \<le> l" "l < old_line m" using l by auto
    define k where "k = nat (l - op)"
    have k: "nat op + k = nat l" using l1 op by (simp add: k_def)
    have kk: "k < nat (old_line m - op)" using l1 by (simp add: k_def)
    have lo: "nat l < length ?old" using l1 inold rm op by linarith
    have nl': "nat (l + (np - op)) = nat np + k" using l1 op np by (simp add: k_def)
    have ln: "nat np + k < length ?new" using l1 innew nl op np by (simp add: k_def)
    have "take (nat (old_line m - op)) (drop (nat op) ?old) ! k = ?old ! nat l"
      using kk lo k by simp
    moreover have "take (nat (old_line m - op)) (drop (nat np) ?new) ! k = ?new ! (nat np + k)"
      using kk ln by simp
    ultimately have same0: "?new ! (nat np + k) = ?old ! nat l" using eqt by simp
    have same: "buf_line buf (l + (np - op)) = buf_line old_buffer l"
      using same0 nl' by (simp add: buf_line_def)
    have rng: "0 \<le> l + (np - op)" "l + (np - op) < line_count buf"
      using l1 op np ln nl' by (auto simp: line_count_def)
    show ?thesis
    proof (rule update_old_line_kept[OF split _ _ _ _ rng same wf bv])
      show "\<forall>d\<in>set done. old_line d < l" using inv l1 by (auto simp: walk_inv_def)
      show "m # ms = [] \<or> l < old_line (hd (m # ms))" using l1 by simp
      show "done \<noteq> [] \<longrightarrow> old_line (last done) + num_removed (last done) < l"
        using inv l1 by (auto simp: walk_inv_def)
      show "l + (np - op) = l + (if done = [] then 0 else diff (last done))"
        using inv by (simp add: walk_inv_def)
    qed
  qed
  have "update_old buf modifs (concat (map (line_matches old_buffer regex) [op..old_line m - 1])) =
        Inr (concat (map (\<lambda>l. line_matches buf regex (l + (np - op))) [op..old_line m - 1]))"
    using line by (intro update_old_concat) simp
  also have "map (\<lambda>l. line_matches buf regex (l + (np - op))) [op..old_line m - 1] =
             map (line_matches buf regex) (map (\<lambda>l. l + (np - op)) [op..old_line m - 1])"
    by simp
  also have "map (\<lambda>l. l + (np - op)) [op..old_line m - 1] = [op + (np - op)..old_line m - 1 + (np - op)]"
    by (rule upto_shift)
  also have "[op + (np - op)..old_line m - 1 + (np - op)] = [np..new_line m - 1]"
  proof -
    have a: "op + (np - op) = np" by simp
    have b: "old_line m - 1 + (np - op) = new_line m - 1" using nl by simp
    show ?thesis unfolding a b ..
  qed
  finally show ?thesis .
qed

lemma walk_removed:
  assumes split: "modifs = done @ m # ms"
    and valid: "modifs_between (buf_lines old_buffer) (buf_lines buf) op np (m # ms)"
    and inv: "walk_inv done op np"
  shows "update_old buf modifs
           (concat (map (line_matches old_buffer regex) [old_line m..old_line m + num_removed m])) = Inr []"
proof (rule update_old_erased, rule ballI)
  fix x assume "x \<in> set (concat (map (line_matches old_buffer regex) [old_line m..old_line m + num_removed m]))"
  then have l: "old_line m \<le> match_line x" "match_line x \<le> old_line m + num_removed m"
    using lines_of_range by blast+
  have le: "op \<le> old_line m"
    and rest: "modifs_between (buf_lines old_buffer) (buf_lines buf)
                 (old_line m + num_removed m + 1) (new_line m + num_added m + 1) ms"
    using valid by auto
  have before: "\<forall>d\<in>set done. old_line d < old_line m" using inv le by (auto simp: walk_inv_def)
  show "update_match buf modifs x = Inr None"
  proof (cases "match_line x = old_line m")
    case True
    show ?thesis
      by (rule update_match_erased_at[OF split _ True[symmetric] refl]) (use before True in simp)
  next
    case False
    then have gt: "old_line m < match_line x" using l by simp
    have split': "modifs = (done @ [m]) @ ms" by (simp add: split)
    have nxt: "ms = [] \<or> match_line x < old_line (hd ms)"
      using modifs_between_next[OF rest] l by auto
    show ?thesis
    proof (rule update_match_erased_after[OF split' _ nxt _ _ refl])
      show "\<forall>d\<in>set (done @ [m]). old_line d < match_line x" using before gt by auto
      show "done @ [m] \<noteq> []" by simp
      show "match_line x \<le> old_line (last (done @ [m])) + num_removed (last (done @ [m]))"
        using l by simp
    qed
  qed
qed

lemma walk:
  assumes wf: "matcher_wf regex" and bv: "bytes_valid buf"
  shows "modifs = done @ todo \<Longrightarrow>
         modifs_between (buf_lines old_buffer) (buf_lines buf) op np todo \<Longrightarrow>
         walk_inv done op np \<Longrightarrow>
         \<exists>kept resc.
           update_old buf modifs
             (concat (map (line_matches old_buffer regex) [op..line_count old_buffer - 1])) = Inr kept \<and>
           (\<forall>acc. rescan_modifs buf regex todo acc = Inr (acc @ resc)) \<and>
           inplace_merge kept resc = concat (map (line_matches buf regex) [np..line_count buf - 1])"
proof (induction todo arbitrary: "done" op np)
  case Nil
  have "update_old buf modifs
           (concat (map (line_matches old_buffer regex) [op..line_count old_buffer - 1])) =
         Inr (concat (map (line_matches buf regex) [np..line_count buf - 1]))"
    using wf bv Nil by (rule walk_rest)
  then show ?case by simp
next
  case (Cons m ms)
  let ?H = "line_matches old_buffer regex" and ?G = "line_matches buf regex"
  let ?a = "old_line m" and ?b = "new_line m"
  let ?op' = "old_line m + num_removed m + 1" and ?np' = "new_line m + num_added m + 1"
  let ?hi = "min (new_line m + num_added m) (line_count buf - 1)"
  have op: "0 \<le> op" and np: "0 \<le> np" and le: "op \<le> ?a"
    and nl: "?b = np + (?a - op)"
    and rm: "0 \<le> num_removed m" and ad: "0 \<le> num_added m"
    and inold: "?a + num_removed m < line_count old_buffer"
    and innew: "?b < line_count buf"
    and rest: "modifs_between (buf_lines old_buffer) (buf_lines buf) ?op' ?np' ms"
    using Cons.prems(2) by (auto simp: line_count_def)
  have split': "modifs = (done @ [m]) @ ms" using Cons.prems(1) by simp
  have inv': "walk_inv (done @ [m]) ?op' ?np'"
    using Cons.prems(3) le rm by (auto simp: walk_inv_def diff_def)
  from Cons.IH[OF split' rest inv'] obtain kept' resc' where
    k': "update_old buf modifs (concat (map ?H [?op'..line_count old_buffer - 1])) = Inr kept'"
    and r': "\<And>acc. rescan_modifs buf regex ms acc = Inr (acc @ resc')"
    and m': "inplace_merge kept' resc' = concat (map ?G [?np'..line_count buf - 1])"
    by blast
  \<comment> \<open>the old lines, in three parts\<close>
  have old3: "[op..line_count old_buffer - 1] =
              [op..?a - 1] @ [?a..?a + num_removed m] @ [?op'..line_count old_buffer - 1]"
  proof -
    have "[op..line_count old_buffer - 1] = [op..?a - 1] @ [?a..line_count old_buffer - 1]"
      using le inold rm by (intro upto_split1) auto
    also have "[?a..line_count old_buffer - 1] =
               [?a..?a + num_removed m] @ [?a + num_removed m + 1..line_count old_buffer - 1]"
      using inold rm by (intro upto_split2) auto
    finally show ?thesis .
  qed
  have seg: "update_old buf modifs (concat (map ?H [op..?a - 1])) = Inr (concat (map ?G [np..?b - 1]))"
    using wf bv Cons.prems by (rule walk_segment)
  have rem: "update_old buf modifs (concat (map ?H [?a..?a + num_removed m])) = Inr []"
    using Cons.prems by (rule walk_removed)
  have kept: "update_old buf modifs (concat (map ?H [op..line_count old_buffer - 1])) =
              Inr (concat (map ?G [np..?b - 1]) @ kept')"
    unfolding old3 map_append concat_append
    using update_old_append[OF seg update_old_append[OF rem k']] by simp
  \<comment> \<open>the rescan\<close>
  have b0: "0 \<le> ?b" using nl np le by simp
  have resc: "rescan_modifs buf regex (m # ms) acc = Inr (acc @ concat (map ?G [?b..?hi]) @ resc')" for acc
    using rescan_lines_eq[OF b0, of buf regex m acc] r' by simp
  \<comment> \<open>the new lines, in three parts\<close>
  have new3: "[np..line_count buf - 1] = [np..?b - 1] @ [?b..?hi] @ [?np'..line_count buf - 1]"
  proof -
    have "[np..line_count buf - 1] = [np..?b - 1] @ [?b..line_count buf - 1]"
      using nl le innew by (intro upto_split1) auto
    also have "[?b..line_count buf - 1] = [?b..?hi] @ [?np'..line_count buf - 1]"
    proof (cases "?b + num_added m \<le> line_count buf - 1")
      case True
      then have "?hi = ?b + num_added m" by simp
      then show ?thesis using True ad by (simp add: upto_split2)
    next
      case False
      then have "?hi = line_count buf - 1" by simp
      moreover have "[?np'..line_count buf - 1] = []" using False by simp
      ultimately show ?thesis by simp
    qed
    finally show ?thesis .
  qed
  \<comment> \<open>the merge\<close>
  have in_rest: "x \<in> set kept' \<union> set resc' \<Longrightarrow> ?np' \<le> match_line x" for x
  proof -
    assume "x \<in> set kept' \<union> set resc'"
    then have "x \<in> set (concat (map ?G [?np'..line_count buf - 1]))"
      using m' set_inplace_merge[of kept' resc'] by simp
    then show ?thesis using lines_of_range by blast
  qed
  have hi: "?hi < ?np'" by simp
  have left: "\<forall>a\<in>set (concat (map ?G [np..?b - 1])).
                \<forall>y\<in>set (concat (map ?G [?b..?hi]) @ resc'). \<not> begin_coord y < begin_coord a"
  proof (intro ballI)
    fix a y
    assume "a \<in> set (concat (map ?G [np..?b - 1]))" "y \<in> set (concat (map ?G [?b..?hi]) @ resc')"
    then have "match_line a < ?b" "?b \<le> match_line y"
      using lines_of_range[of a buf regex np "?b - 1"] lines_of_range[of y buf regex ?b ?hi]
        in_rest[of y] ad by auto
    then show "\<not> begin_coord y < begin_coord a" by (simp add: begin_coord_def)
  qed
  have right: "\<forall>b\<in>set (concat (map ?G [?b..?hi])). \<forall>x\<in>set kept'. begin_coord b < begin_coord x"
  proof (intro ballI)
    fix b x
    assume "b \<in> set (concat (map ?G [?b..?hi]))" "x \<in> set kept'"
    then have "match_line b < ?np'" "?np' \<le> match_line x"
      using lines_of_range[of b buf regex ?b ?hi] in_rest[of x] hi by auto
    then show "begin_coord b < begin_coord x" by (simp add: begin_coord_def)
  qed
  have "inplace_merge (concat (map ?G [np..?b - 1]) @ kept') (concat (map ?G [?b..?hi]) @ resc') =
        concat (map ?G [np..?b - 1]) @ inplace_merge kept' (concat (map ?G [?b..?hi]) @ resc')"
    using left by (rule inplace_merge_left)
  also have "inplace_merge kept' (concat (map ?G [?b..?hi]) @ resc') =
             concat (map ?G [?b..?hi]) @ inplace_merge kept' resc'"
    using right by (rule inplace_merge_right)
  finally have merged:
    "inplace_merge (concat (map ?G [np..?b - 1]) @ kept') (concat (map ?G [?b..?hi]) @ resc') =
       concat (map ?G [np..line_count buf - 1])"
    unfolding m' new3 by simp
  show ?case
    apply (rule exI[of _ "concat (map ?G [np..?b - 1]) @ kept'"])
    apply (rule exI[of _ "concat (map ?G [?b..?hi]) @ resc'"])
    using kept resc merged by simp
qed

text \<open>
  C1: when the line modifications describe how the lines of the old state of the buffer
  became those of the new one, \<open>update_matches\<close> on the list of a full scan of the old
  state returns the list of a full scan of the new state, in the same order, every match
  with the timestamp of the new state.
\<close>

theorem update_matches_is_rescan:
  assumes "modifs_between (buf_lines old_buffer) (buf_lines buf) 0 0 modifs"
    and "matcher_wf regex" and "bytes_valid buf"
  shows "update_matches buf modifs (find_matches old_buffer [] regex) regex =
           Inr (find_matches buf [] regex)"
proof -
  have inv: "walk_inv [] 0 0" by (simp add: walk_inv_def)
  have split: "modifs = [] @ modifs" by simp
  from walk[OF assms(2,3) split assms(1) inv] obtain kept resc where
    k: "update_old buf modifs (find_matches old_buffer [] regex) = Inr kept"
    and r: "rescan_modifs buf regex modifs kept = Inr (kept @ resc)"
    and m: "inplace_merge kept resc = find_matches buf [] regex"
    unfolding find_matches_eq by blast
  show ?thesis using k r m by (simp add: update_matches_def)
qed

lemma update_matches_example:
  "update_matches new_state edit (find_matches old_state [] match_x) match_x =
     Inr [\<lparr>match_timestamp = 2, match_line = 2, match_begin = 0, match_end = 1\<rparr>,
          \<lparr>match_timestamp = 2, match_line = 6, match_begin = 1, match_end = 2\<rparr>,
          \<lparr>match_timestamp = 2, match_line = 10, match_begin = 0, match_end = 1\<rparr>,
          \<lparr>match_timestamp = 2, match_line = 10, match_begin = 1, match_end = 2\<rparr>]"
  by code_simp

lemma x_positions_wf: "0 \<le> i \<Longrightarrow> \<forall>(b, e)\<in>set (x_positions i l). i \<le> b \<and> b \<le> e \<and> e \<le> i + int (length l)"
proof (induction l arbitrary: i)
  case Nil
  then show ?case by simp
next
  case (Cons c cs)
  have "\<forall>(b, e)\<in>set (x_positions (i + 1) cs). i + 1 \<le> b \<and> b \<le> e \<and> e \<le> i + 1 + int (length cs)"
    using Cons.prems by (intro Cons.IH) simp
  then show ?case by auto
qed

lemma match_x_wf: "matcher_wf match_x"
  unfolding matcher_wf_def match_x_def using x_positions_wf[of 0] by fastforce

lemma new_state_valid: "bytes_valid new_state"
  by (simp add: bytes_valid_def new_state_def on_bytes_def line_count_def buf_line_def)

lemma edit_between: "modifs_between (buf_lines old_state) (buf_lines new_state) 0 0 edit"
  by (simp add: old_state_def new_state_def edit_def lines_before_def lines_after_def)

theorem update_matches_is_rescan_witness:
  "modifs_between (buf_lines old_state) (buf_lines new_state) 0 0 edit \<and>
   matcher_wf match_x \<and> bytes_valid new_state \<and>
   find_matches new_state [] match_x =
     [\<lparr>match_timestamp = 2, match_line = 2, match_begin = 0, match_end = 1\<rparr>,
      \<lparr>match_timestamp = 2, match_line = 6, match_begin = 1, match_end = 2\<rparr>,
      \<lparr>match_timestamp = 2, match_line = 10, match_begin = 0, match_end = 1\<rparr>,
      \<lparr>match_timestamp = 2, match_line = 10, match_begin = 1, match_end = 2\<rparr>]"
  using update_matches_is_rescan [OF edit_between match_x_wf new_state_valid]
    update_matches_example edit_between match_x_wf new_state_valid
  by simp

end
